theory Spec2Isabelle
  imports Main
begin

section \<open>Errors\<close>

text \<open>
  Every exception the program can raise is a value. The Python exception class is in the
  constructor's comment; two \<open>ValueError\<close>s with different messages are different
  constructors, so that a theorem can tell which check failed.
\<close>

datatype error =
    NoFormatMatch         \<comment> \<open>ValueError, strptime: time data does not match format\<close>
  | UnconvertedData       \<comment> \<open>ValueError, strptime: unconverted data remains\<close>
  | FieldOutOfRange       \<comment> \<open>ValueError, datetime constructor: year, month or day out of range\<close>
  | DateOverflow          \<comment> \<open>OverflowError, date arithmetic: date value out of range\<close>
  | IncorrectDateFormat   \<comment> \<open>ValueError, parse_date: Incorrect date format\<close>
  | TitleTooLong          \<comment> \<open>ValueError, gen_calendar: Title can't be longer than 30 characters\<close>
  | LocaleError           \<comment> \<open>locale.Error, setlocale: unsupported locale setting\<close>

section \<open>The datetime values the program uses\<close>

text \<open>
  The program builds its \<open>datetime\<close> values with \<open>strptime\<close> on a pattern without a time
  part and with \<open>datetime(year, month, day)\<close>, and changes them only by whole days, so
  their time of day is always midnight and a value is its calendar date. The arithmetic
  is the one of CPython's \<open>datetime\<close> module: a date is converted to its proleptic
  Gregorian ordinal (1 January of year 1 is day 1), the days are added, and the ordinal
  is converted back.
\<close>

record date =
  year :: int
  month :: int
  day :: int

definition MINYEAR :: int where "MINYEAR = 1"
definition MAXYEAR :: int where "MAXYEAR = 9999"
definition MAXORDINAL :: int where "MAXORDINAL = 3652059"

definition DAYS_IN_MONTH :: "int list" where
  "DAYS_IN_MONTH = [-1, 31, 28, 31, 30, 31, 30, 31, 31, 30, 31, 30, 31]"

definition DAYS_BEFORE_MONTH :: "int list" where
  "DAYS_BEFORE_MONTH = [-1, 0, 31, 59, 90, 120, 151, 181, 212, 243, 273, 304, 334]"

definition is_leap :: "int \<Rightarrow> bool" where
  "is_leap y \<longleftrightarrow> y mod 4 = 0 \<and> (y mod 100 \<noteq> 0 \<or> y mod 400 = 0)"

definition days_before_year :: "int \<Rightarrow> int" where
  "days_before_year y = (let y1 = y - 1 in y1 * 365 + y1 div 4 - y1 div 100 + y1 div 400)"

text \<open>The two table lookups are only reached with a month between 1 and 12.\<close>

definition days_in_month :: "int \<Rightarrow> int \<Rightarrow> int" where
  "days_in_month y m = (if m = 2 \<and> is_leap y then 29 else DAYS_IN_MONTH ! nat m)"

definition days_before_month :: "int \<Rightarrow> int \<Rightarrow> int" where
  "days_before_month y m = DAYS_BEFORE_MONTH ! nat m + (if m > 2 \<and> is_leap y then 1 else 0)"

definition ymd2ord :: "int \<Rightarrow> int \<Rightarrow> int \<Rightarrow> int" where
  "ymd2ord y m d = days_before_year y + days_before_month y m + d"

definition DI400Y :: int where "DI400Y = 146097"
definition DI100Y :: int where "DI100Y = 36524"
definition DI4Y :: int where "DI4Y = 1461"

text \<open>
  \<open>month_day\<close> is the second half of \<open>_ord2ymd\<close>: from the zero-based day of the year
  and the leap flag to the month and the day of the month. The month is first estimated
  by a shift, \<open>(n + 50) >> 5\<close>, and corrected by one when the estimate is too large.
\<close>

definition month_day :: "bool \<Rightarrow> int \<Rightarrow> int \<times> int" where
  "month_day leapyear n =
     (let month = (n + 50) div 32;
          preceding = DAYS_BEFORE_MONTH ! nat month + (if month > 2 \<and> leapyear then 1 else 0)
      in if preceding > n
         then (let month = month - 1;
                   preceding = preceding
                     - (DAYS_IN_MONTH ! nat month + (if month = 2 \<and> leapyear then 1 else 0))
               in (month, n - preceding + 1))
         else (month, n - preceding + 1))"

definition ord2ymd :: "int \<Rightarrow> int \<times> int \<times> int" where
  "ord2ymd n0 =
     (let n = n0 - 1;
          n400 = n div DI400Y; n = n mod DI400Y;
          y = n400 * 400 + 1;
          n100 = n div DI100Y; n = n mod DI100Y;
          n4 = n div DI4Y; n = n mod DI4Y;
          n1 = n div 365; n = n mod 365;
          y = y + n100 * 100 + n4 * 4 + n1
      in if n1 = 4 \<or> n100 = 4 then (y - 1, 12, 31)
         else (let leapyear = (n1 = 3 \<and> (n4 \<noteq> 24 \<or> n100 = 3));
                   (m, d) = month_day leapyear n
               in (y, m, d)))"

text \<open>
  The constructor \<open>datetime(year, month, day)\<close> checks its fields in this order and
  raises \<open>ValueError\<close> at the first one out of range.
\<close>

definition new_date :: "int \<Rightarrow> int \<Rightarrow> int \<Rightarrow> error + date" where
  "new_date y m d =
     (if \<not> (MINYEAR \<le> y \<and> y \<le> MAXYEAR) then Inl FieldOutOfRange
      else if \<not> (1 \<le> m \<and> m \<le> 12) then Inl FieldOutOfRange
      else if \<not> (1 \<le> d \<and> d \<le> days_in_month y m) then Inl FieldOutOfRange
      else Inr \<lparr>year = y, month = m, day = d\<rparr>)"

definition toordinal :: "date \<Rightarrow> int" where
  "toordinal dt = ymd2ord (year dt) (month dt) (day dt)"

definition fromordinal :: "int \<Rightarrow> error + date" where
  "fromordinal n = (case ord2ymd n of (y, m, d) \<Rightarrow> new_date y m d)"

text \<open>\<open>dt + timedelta(days=k)\<close>; \<open>timedelta(weeks=w)\<close> is \<open>7 * w\<close> days.\<close>

definition add_days :: "date \<Rightarrow> int \<Rightarrow> error + date" where
  "add_days dt k =
     (let o' = toordinal dt + k
      in if 0 < o' \<and> o' \<le> MAXORDINAL then fromordinal o' else Inl DateOverflow)"

definition weekday :: "date \<Rightarrow> int" where
  "weekday dt = (toordinal dt + 6) mod 7"

text \<open>Dates compare as the tuples (year, month, day).\<close>

definition date_lt :: "date \<Rightarrow> date \<Rightarrow> bool" where
  "date_lt a b \<longleftrightarrow>
     year a < year b \<or> (year a = year b \<and>
       (month a < month b \<or> (month a = month b \<and> day a < day b)))"

definition date_le :: "date \<Rightarrow> date \<Rightarrow> bool" where
  "date_le a b \<longleftrightarrow> date_lt a b \<or> (year a = year b \<and> month a = month b \<and> day a = day b)"

text \<open>A well-formed date: what the constructor accepts.\<close>

definition valid_date :: "date \<Rightarrow> bool" where
  "valid_date dt \<longleftrightarrow>
     MINYEAR \<le> year dt \<and> year dt \<le> MAXYEAR \<and> 1 \<le> month dt \<and> month dt \<le> 12 \<and>
     1 \<le> day dt \<and> day dt \<le> days_in_month (year dt) (month dt)"

section \<open>Facts about the calendar arithmetic\<close>

text \<open>
  The conversions between dates and ordinals are inverse to each other on the dates the
  constructor accepts and the ordinals 1 to \<open>MAXORDINAL\<close>, and the order of the dates
  as tuples is the order of their ordinals. The loop that backs up to a Monday
  terminates because of these facts.
\<close>



lemma month_est_range:
  fixes n :: int
  assumes "0 \<le> n" "n \<le> 365"
  shows "(n + 50) div 32 \<in> {1..12}"
  using assms by auto

lemma month_day_correct:
  assumes "0 \<le> n" and "n < 365 + (if lp then 1 else 0)"
    and "month_day lp n = (m, d)"
  shows "1 \<le> m \<and> m \<le> 12 \<and> 1 \<le> d
       \<and> d \<le> DAYS_IN_MONTH ! nat m + (if m = 2 \<and> lp then 1 else 0)
       \<and> DAYS_BEFORE_MONTH ! nat m + (if m > 2 \<and> lp then 1 else 0) + d = n + 1"
proof -
  define k where "k = (n + 50) div 32"
  have kr: "k \<in> {1..12}" using assms(1,2) unfolding k_def by (auto split: if_splits)
  have nb: "32 * k - 50 \<le> n" "n \<le> 32 * k - 19" unfolding k_def by presburger+
  from kr have "k = 1 \<or> k = 2 \<or> k = 3 \<or> k = 4 \<or> k = 5 \<or> k = 6 \<or> k = 7 \<or> k = 8 \<or> k = 9 \<or> k = 10 \<or> k = 11 \<or> k = 12"
    by (simp add: atLeastAtMost_iff) arith
  then show ?thesis
    using assms nb
    by (elim disjE) (auto simp: month_day_def Let_def k_def[symmetric] DAYS_IN_MONTH_def DAYS_BEFORE_MONTH_def split: if_splits)
qed



lemma days_before_year_cycles:
  assumes "0 \<le> e" "e \<le> 3" "0 \<le> c" "c \<le> 24" "0 \<le> b" "b \<le> 3"
  shows "days_before_year (400 * a + 100 * b + 4 * c + e + 1)
         = 146097 * a + 36524 * b + 1461 * c + 365 * e"
proof -
  let ?Y = "400 * a + 100 * b + 4 * c + e"
  have d4: "?Y div 4 = 100 * a + 25 * b + c"
    by (rule int_div_pos_eq [where r = e]) (use assms in auto)
  have d100: "?Y div 100 = 4 * a + b"
    by (rule int_div_pos_eq [where r = "4 * c + e"]) (use assms in auto)
  have d400: "?Y div 400 = a"
    by (rule int_div_pos_eq [where r = "100 * b + 4 * c + e"]) (use assms in auto)
  show ?thesis
    unfolding days_before_year_def Let_def using d4 d100 d400 by simp
qed

lemma mod4_cycles:
  assumes "0 \<le> e" "e \<le> 3"
  shows "(400 * a + 100 * b + 4 * c + e + 1) mod 4 = 0 \<longleftrightarrow> e = (3::int)"
proof (cases "e = 3")
  case True
  have "(400 * a + 100 * b + 4 * c + e + 1) mod 4 = 0"
    by (rule int_mod_pos_eq [where q = "100 * a + 25 * b + c + 1"]) (use True in auto)
  with True show ?thesis by simp
next
  case False
  have "(400 * a + 100 * b + 4 * c + e + 1) mod 4 = e + 1"
    by (rule int_mod_pos_eq [where q = "100 * a + 25 * b + c"]) (use False assms in auto)
  with False assms show ?thesis by simp
qed

lemma mod100_cycles:
  assumes "0 \<le> c" "c \<le> 24"
  shows "(400 * a + 100 * b + 4 * c + 3 + 1) mod 100 = 0 \<longleftrightarrow> c = (24::int)"
proof (cases "c = 24")
  case True
  have "(400 * a + 100 * b + 4 * c + 3 + 1) mod 100 = 0"
    by (rule int_mod_pos_eq [where q = "4 * a + b + 1"]) (use True in auto)
  with True show ?thesis by simp
next
  case False
  have "(400 * a + 100 * b + 4 * c + 3 + 1) mod 100 = 4 * c + 4"
    by (rule int_mod_pos_eq [where q = "4 * a + b"]) (use False assms in auto)
  with False assms show ?thesis by simp
qed

lemma mod400_cycles:
  assumes "0 \<le> b" "b \<le> 3"
  shows "(400 * a + 100 * b + 4 * 24 + 3 + 1) mod 400 = 0 \<longleftrightarrow> b = (3::int)"
proof (cases "b = 3")
  case True
  have "(400 * a + 100 * b + 4 * 24 + 3 + 1) mod 400 = 0"
    by (rule int_mod_pos_eq [where q = "a + 1"]) (use True in auto)
  with True show ?thesis by simp
next
  case False
  have "(400 * a + 100 * b + 4 * 24 + 3 + 1) mod 400 = 100 * b + 100"
    by (rule int_mod_pos_eq [where q = "a"]) (use False assms in auto)
  with False assms show ?thesis by simp
qed

lemma is_leap_cycles:
  assumes "0 \<le> e" "e \<le> 3" "0 \<le> c" "c \<le> 24" "0 \<le> b" "b \<le> 3"
  shows "is_leap (400 * a + 100 * b + 4 * c + e + 1) \<longleftrightarrow> e = 3 \<and> (c \<noteq> 24 \<or> b = 3)"
proof (cases "e = 3")
  case False
  then show ?thesis using mod4_cycles [OF assms(1,2), of a b c] by (simp add: is_leap_def)
next
  case e3: True
  show ?thesis
  proof (cases "c = 24")
    case False
    then show ?thesis
      using e3 mod4_cycles [OF assms(1,2), of a b c] mod100_cycles [OF assms(3,4), of a b]
      by (simp add: is_leap_def)
  next
    case True
    then show ?thesis
      using e3 mod4_cycles [OF assms(1,2), of a b c] mod100_cycles [OF assms(3,4), of a b]
        mod400_cycles [OF assms(5,6), of a]
      by (simp add: is_leap_def)
  qed
qed




lemma days_in_month_tab:
  assumes "1 \<le> m" "m \<le> 12"
  shows "days_in_month y m = DAYS_IN_MONTH ! nat m + (if m = 2 \<and> is_leap y then 1 else 0)"
proof -
  from assms have "m = 1 \<or> m = 2 \<or> m = 3 \<or> m = 4 \<or> m = 5 \<or> m = 6 \<or> m = 7 \<or> m = 8 \<or> m = 9 \<or> m = 10 \<or> m = 11 \<or> m = 12"
    by arith
  then show ?thesis
    by (elim disjE) (simp_all add: days_in_month_def DAYS_IN_MONTH_def)
qed

lemma ord2ymd_correct:
  assumes n0: "1 \<le> n0" and res: "ord2ymd n0 = (y, m, d)"
  shows "ymd2ord y m d = n0 \<and> 1 \<le> y \<and> 1 \<le> m \<and> m \<le> 12 \<and> 1 \<le> d \<and> d \<le> days_in_month y m"
proof -
  define n where "n = n0 - 1"
  define a where "a = n div 146097"
  define r1 where "r1 = n mod 146097"
  define b where "b = r1 div 36524"
  define r2 where "r2 = r1 mod 36524"
  define c where "c = r2 div 1461"
  define r3 where "r3 = r2 mod 1461"
  define e where "e = r3 div 365"
  define r4 where "r4 = r3 mod 365"
  have n_ge: "0 \<le> n" using n0 by (simp add: n_def)
  have a_ge: "0 \<le> a" using n_ge by (simp add: a_def pos_imp_zdiv_nonneg_iff)
  have r1b: "0 \<le> r1" "r1 < 146097" by (simp_all add: r1_def)
  have r2b: "0 \<le> r2" "r2 < 36524" by (simp_all add: r2_def)
  have r3b: "0 \<le> r3" "r3 < 1461" by (simp_all add: r3_def)
  have r4b: "0 \<le> r4" "r4 < 365" by (simp_all add: r4_def)
  have n_eq: "n = 146097 * a + r1" by (simp add: a_def r1_def)
  have r1_eq: "r1 = 36524 * b + r2" by (simp add: b_def r2_def)
  have r2_eq: "r2 = 1461 * c + r3" by (simp add: c_def r3_def)
  have r3_eq: "r3 = 365 * e + r4" by (simp add: e_def r4_def)
  have bb: "0 \<le> b" "b \<le> 4" using r1b r1_eq r2b by arith+
  have cb: "0 \<le> c" "c \<le> 24" using r2b r2_eq r3b by arith+
  have eb: "0 \<le> e" "e \<le> 4" using r3b r3_eq r4b by arith+
  have unfold: "ord2ymd n0 =
      (if e = 4 \<or> b = 4 then (400 * a + 100 * b + 4 * c + e, 12, 31)
       else (case month_day (e = 3 \<and> (c \<noteq> 24 \<or> b = 3)) r4 of
               (m, d) \<Rightarrow> (400 * a + 100 * b + 4 * c + e + 1, m, d)))"
    by (simp add: ord2ymd_def Let_def DI400Y_def DI100Y_def DI4Y_def
        n_def a_def r1_def b_def r2_def c_def r3_def e_def r4_def)
  show ?thesis
  proof (cases "e = 4 \<or> b = 4")
    case True
    then consider (b4) "b = 4" | (e4) "b \<le> 3" "e = 4" using bb by arith
    then have "\<exists>b' c'. 0 \<le> c' \<and> c' \<le> 24 \<and> 0 \<le> b' \<and> b' \<le> 3 \<and> (c' \<noteq> 24 \<or> b' = 3)
        \<and> 400 * a + 100 * b + 4 * c + e = 400 * a + 100 * b' + 4 * c' + 3 + 1
        \<and> n = 146097 * a + 36524 * b' + 1461 * c' + 1460"
    proof cases
      case b4
      then have "r2 = 0" "c = 0" "r3 = 0" "e = 0" "r4 = 0"
        using r1b r1_eq r2b r2_eq r3b r3_eq r4b cb eb by arith+
      then show ?thesis
        using b4 n_eq r1_eq by (intro exI [of _ 3] exI [of _ 24]) simp
    next
      case e4
      then have "r4 = 0" "c \<le> 23" using r2b r2_eq r3b r3_eq r4b cb by arith+
      then show ?thesis
        using e4 cb bb n_eq r1_eq r2_eq r3_eq
        by (intro exI [of _ b] exI [of _ c]) simp
    qed
    then obtain b' c' where c': "0 \<le> c'" "c' \<le> 24" and b': "0 \<le> b'" "b' \<le> 3"
      and lpc: "c' \<noteq> 24 \<or> b' = 3"
      and yy: "400 * a + 100 * b + 4 * c + e = 400 * a + 100 * b' + 4 * c' + 3 + 1"
      and nn: "n = 146097 * a + 36524 * b' + 1461 * c' + 1460" by blast
    have ymd: "y = 400 * a + 100 * b' + 4 * c' + 3 + 1" "m = 12" "d = 31"
      using res unfold True yy by simp_all
    have lp: "is_leap y" unfolding ymd(1)
      using is_leap_cycles [of 3 c' b' a] c' b' lpc by simp
    have dby: "days_before_year y = 146097 * a + 36524 * b' + 1461 * c' + 365 * 3"
      unfolding ymd(1) using days_before_year_cycles [of 3 c' b' a] c' b' by simp
    have "ymd2ord y m d = n0"
      using dby lp nn by (simp add: ymd2ord_def days_before_month_def ymd DAYS_BEFORE_MONTH_def n_def)
    moreover have "1 \<le> y" using ymd(1) a_ge b' c' by simp
    moreover have "days_in_month y m = 31" by (simp add: ymd days_in_month_def DAYS_IN_MONTH_def)
    ultimately show ?thesis using ymd by simp
  next
    case False
    then have e3: "e \<le> 3" and b3: "b \<le> 3" using eb bb by arith+
    define lp where "lp \<longleftrightarrow> e = 3 \<and> (c \<noteq> 24 \<or> b = 3)"
    have md: "month_day lp r4 = (m, d)" and y: "y = 400 * a + 100 * b + 4 * c + e + 1"
      using res unfold False by (auto simp: lp_def split: prod.splits)
    have lp: "is_leap y \<longleftrightarrow> lp" unfolding y lp_def
      using is_leap_cycles [of e c b a] eb(1) e3 cb bb(1) b3 by simp
    have dby: "days_before_year y = 146097 * a + 36524 * b + 1461 * c + 365 * e"
      unfolding y using days_before_year_cycles [of e c b a] eb(1) e3 cb bb(1) b3 by simp
    have mdc: "1 \<le> m \<and> m \<le> 12 \<and> 1 \<le> d
       \<and> d \<le> DAYS_IN_MONTH ! nat m + (if m = 2 \<and> lp then 1 else 0)
       \<and> DAYS_BEFORE_MONTH ! nat m + (if m > 2 \<and> lp then 1 else 0) + d = r4 + 1"
      using month_day_correct [OF r4b(1) _ md] r4b(2) by simp
    have "ymd2ord y m d = n0"
      using dby lp mdc n_eq r1_eq r2_eq r3_eq
      by (simp add: ymd2ord_def days_before_month_def n_def)
    moreover have "1 \<le> y" using y a_ge bb cb eb by simp
    moreover have "d \<le> days_in_month y m"
      using mdc lp days_in_month_tab [of m y] by simp
    ultimately show ?thesis using mdc by simp
  qed
qed




lemma div_pred:
  fixes y k :: int
  assumes "0 < k"
  shows "y div k = (y - 1) div k + (if y mod k = 0 then 1 else 0)"
proof (cases "y mod k = 0")
  case True
  have "(y - 1) div k = y div k - 1"
  proof (rule int_div_pos_eq [where r = "k - 1"])
    have "y = k * (y div k)" using True by (simp add: mod_eq_0_iff_dvd)
    then show "y - 1 = k * (y div k - 1) + (k - 1)" by (simp add: algebra_simps)
  qed (use assms in auto)
  with True show ?thesis by simp
next
  case False
  have "(y - 1) div k = y div k"
  proof (rule int_div_pos_eq [where r = "y mod k - 1"])
    show "y - 1 = k * (y div k) + (y mod k - 1)" by simp
    have "0 \<le> y mod k" using assms by simp
    with False show "0 \<le> y mod k - 1" by simp
    have "y mod k < k" using assms by simp
    then show "y mod k - 1 < k" by simp
  qed
  with False show ?thesis by simp
qed



lemma mod100_mod4: "(y::int) mod 100 = 0 \<Longrightarrow> y mod 4 = 0"
proof -
  assume "y mod 100 = 0"
  then have "100 dvd y" by (rule dvd_eq_mod_eq_0 [THEN iffD2])
  then obtain k where "y = 100 * k" by (rule dvdE)
  then have "y = 4 * (25 * k)" by simp
  then have "4 dvd y" by (rule dvdI)
  then show ?thesis by (rule dvd_eq_mod_eq_0 [THEN iffD1])
qed

lemma mod400_mod100: "(y::int) mod 400 = 0 \<Longrightarrow> y mod 100 = 0"
proof -
  assume "y mod 400 = 0"
  then have "400 dvd y" by (rule dvd_eq_mod_eq_0 [THEN iffD2])
  then obtain k where "y = 400 * k" by (rule dvdE)
  then have "y = 100 * (4 * k)" by simp
  then have "100 dvd y" by (rule dvdI)
  then show ?thesis by (rule dvd_eq_mod_eq_0 [THEN iffD1])
qed




lemma leap_count:
  "(if is_leap y then 1 else 0 :: int)
   = (if y mod 4 = 0 then 1 else 0) - (if y mod 100 = 0 then 1 else 0)
     + (if y mod 400 = 0 then 1 else 0)"
proof (cases "y mod 400 = 0")
  case True
  then show ?thesis
    using mod400_mod100 [OF True] mod100_mod4 [OF mod400_mod100 [OF True]]
    by (simp add: is_leap_def)
next
  case n400: False
  show ?thesis
  proof (cases "y mod 100 = 0")
    case True
    then show ?thesis using n400 mod100_mod4 [OF True] by (simp add: is_leap_def)
  next
    case False
    then show ?thesis using n400 by (simp add: is_leap_def)
  qed
qed

lemma days_before_year_Suc:
  "days_before_year (y + 1) = days_before_year y + 365 + (if is_leap y then 1 else 0)"
proof -
  have "days_before_year (y + 1) = y * 365 + y div 4 - y div 100 + y div 400"
    by (simp add: days_before_year_def)
  also have "\<dots> = days_before_year y + 365 +
      ((if y mod 4 = 0 then 1 else 0) - (if y mod 100 = 0 then 1 else 0)
     + (if y mod 400 = 0 then 1 else 0))"
    unfolding days_before_year_def Let_def
    by (simp only: div_pred [of 4 y] div_pred [of 100 y] div_pred [of 400 y] zero_less_numeral)
       (simp only: algebra_simps)
  finally show ?thesis by (simp only: leap_count)
qed




lemma days_before_year_mono:
  assumes "y \<le> y'"
  shows "days_before_year y \<le> days_before_year y'"
proof -
  have "days_before_year y \<le> days_before_year (y + int k)" for k
  proof (induction k)
    case 0
    then show ?case by simp
  next
    case (Suc k)
    have "days_before_year (y + int (Suc k)) = days_before_year ((y + int k) + 1)"
      by (simp add: algebra_simps)
    also have "\<dots> \<ge> days_before_year (y + int k)"
      by (simp only: days_before_year_Suc split: if_split) simp
    finally show ?case using Suc by simp
  qed
  from this [of "nat (y' - y)"] assms show ?thesis by simp
qed

lemma days_before_year_1: "days_before_year 1 = 0"
  by (simp add: days_before_year_def)

lemma days_before_year_10000: "days_before_year 10000 = MAXORDINAL"
  by (simp add: days_before_year_def MAXORDINAL_def)

lemma month_cases:
  fixes m :: int
  assumes "1 \<le> m" "m \<le> 12"
  shows "m = 1 \<or> m = 2 \<or> m = 3 \<or> m = 4 \<or> m = 5 \<or> m = 6 \<or> m = 7 \<or> m = 8 \<or> m = 9 \<or> m = 10 \<or> m = 11 \<or> m = 12"
  using assms by arith

lemma days_before_month_next:
  assumes "1 \<le> m" "m \<le> 12"
  shows "days_before_month y m + days_in_month y m
         = (if m = 12 then 365 + (if is_leap y then 1 else 0) else days_before_month y (m + 1))"
  using month_cases [OF assms]
  by (elim disjE) (simp_all add: days_before_month_def days_in_month_def DAYS_IN_MONTH_def DAYS_BEFORE_MONTH_def)

lemma days_before_month_mono:
  assumes "1 \<le> m" "m \<le> m'" "m' \<le> 12"
  shows "days_before_month y m \<le> days_before_month y m'"
proof -
  have "1 \<le> m'" "m \<le> 12" using assms by arith+
  from month_cases [OF assms(1) this(2)] month_cases [OF this(1) assms(3)] assms(2)
  show ?thesis
    by (elim disjE) (simp_all add: days_before_month_def DAYS_BEFORE_MONTH_def)
qed

lemma days_before_month_nonneg:
  assumes "1 \<le> m" "m \<le> 12"
  shows "0 \<le> days_before_month y m"
  using month_cases [OF assms]
  by (elim disjE) (simp_all add: days_before_month_def DAYS_BEFORE_MONTH_def)

lemma days_in_month_pos:
  assumes "1 \<le> m" "m \<le> 12"
  shows "28 \<le> days_in_month y m \<and> days_in_month y m \<le> 31"
  using month_cases [OF assms]
  by (elim disjE) (simp_all add: days_in_month_def DAYS_IN_MONTH_def)




text \<open>Within a year the day of the year is between 1 and the length of the year.\<close>

lemma day_of_year_bounds:
  assumes "1 \<le> m" "m \<le> 12" "1 \<le> d" "d \<le> days_in_month y m"
  shows "1 \<le> days_before_month y m + d"
    and "days_before_month y m + d \<le> 365 + (if is_leap y then 1 else 0)"
proof -
  show "1 \<le> days_before_month y m + d"
    using days_before_month_nonneg [OF assms(1,2), of y] assms(3) by arith
  have "days_before_month y m + days_in_month y m \<le> days_before_month y 12 + days_in_month y 12"
  proof (cases "m = 12")
    case True
    then show ?thesis by simp
  next
    case False
    then have m1: "1 \<le> m + 1" "m + 1 \<le> 12" using assms(1,2) by arith+
    have "days_before_month y m + days_in_month y m = days_before_month y (m + 1)"
      using days_before_month_next [OF assms(1,2), of y] False by simp
    also have "\<dots> \<le> days_before_month y 12"
      by (rule days_before_month_mono [OF m1(1) m1(2)]) simp
    also have "\<dots> \<le> days_before_month y 12 + days_in_month y 12"
      using days_in_month_pos [of 12 y] by simp
    finally show ?thesis .
  qed
  also have "\<dots> = 365 + (if is_leap y then 1 else 0)"
    using days_before_month_next [of 12 y] by simp
  finally show "days_before_month y m + d \<le> 365 + (if is_leap y then 1 else 0)"
    using assms(4) by arith
qed

lemma ymd2ord_year_bounds:
  assumes "1 \<le> m" "m \<le> 12" "1 \<le> d" "d \<le> days_in_month y m"
  shows "days_before_year y < ymd2ord y m d" and "ymd2ord y m d \<le> days_before_year (y + 1)"
  using day_of_year_bounds [OF assms]
  by (simp_all only: ymd2ord_def days_before_year_Suc)

lemma ymd2ord_less:
  assumes a: "1 \<le> m" "m \<le> 12" "1 \<le> d" "d \<le> days_in_month y m"
    and b: "1 \<le> m'" "m' \<le> 12" "1 \<le> d'" "d' \<le> days_in_month y' m'"
    and lt: "y < y' \<or> (y = y' \<and> (m < m' \<or> (m = m' \<and> d < d')))"
  shows "ymd2ord y m d < ymd2ord y' m' d'"
proof -
  from lt consider (Y) "y < y'" | (M) "y = y'" "m < m'" | (D) "y = y'" "m = m'" "d < d'"
    by blast
  then show ?thesis
  proof cases
    case Y
    have "ymd2ord y m d \<le> days_before_year (y + 1)" by (rule ymd2ord_year_bounds [OF a])
    also have "\<dots> \<le> days_before_year y'" by (rule days_before_year_mono) (use Y in simp)
    also have "\<dots> < ymd2ord y' m' d'" by (rule ymd2ord_year_bounds [OF b])
    finally show ?thesis .
  next
    case M
    then have m1: "1 \<le> m + 1" "m + 1 \<le> m'" "m \<noteq> 12" using a(1) b(2) by arith+
    have "days_before_month y m + d \<le> days_before_month y m + days_in_month y m"
      using a(4) by simp
    also have "\<dots> = days_before_month y (m + 1)"
      using days_before_month_next [OF a(1,2), of y] m1(3) by simp
    also have "\<dots> \<le> days_before_month y m'"
      by (rule days_before_month_mono [OF m1(1,2) b(2)])
    also have "\<dots> < days_before_month y m' + d'" using b(3) by simp
    finally show ?thesis using M(1) by (simp add: ymd2ord_def)
  next
    case D
    then show ?thesis by (simp add: ymd2ord_def)
  qed
qed








lemma toordinal_range:
  assumes "valid_date dt"
  shows "1 \<le> toordinal dt" and "toordinal dt \<le> MAXORDINAL"
proof -
  from assms have v: "1 \<le> month dt" "month dt \<le> 12" "1 \<le> day dt"
    "day dt \<le> days_in_month (year dt) (month dt)" and y: "1 \<le> year dt" "year dt + 1 \<le> 10000"
    by (simp_all add: valid_date_def MINYEAR_def MAXYEAR_def)
  have "days_before_year 1 \<le> days_before_year (year dt)"
    by (rule days_before_year_mono [OF y(1)])
  then show "1 \<le> toordinal dt"
    using ymd2ord_year_bounds(1) [OF v] by (simp add: toordinal_def days_before_year_1)
  have "toordinal dt \<le> days_before_year (year dt + 1)"
    unfolding toordinal_def by (rule ymd2ord_year_bounds(2) [OF v])
  also have "\<dots> \<le> days_before_year 10000" by (rule days_before_year_mono [OF y(2)])
  finally show "toordinal dt \<le> MAXORDINAL" by (simp only: days_before_year_10000)
qed

lemma date_lt_toordinal:
  assumes "valid_date a" "valid_date b"
  shows "date_lt a b \<longleftrightarrow> toordinal a < toordinal b"
proof -
  from assms have va: "1 \<le> month a" "month a \<le> 12" "1 \<le> day a"
    "day a \<le> days_in_month (year a) (month a)"
    and vb: "1 \<le> month b" "month b \<le> 12" "1 \<le> day b"
    "day b \<le> days_in_month (year b) (month b)"
    by (simp_all add: valid_date_def)
  have fwd: "toordinal a < toordinal b" if "date_lt a b"
    unfolding toordinal_def using that by (intro ymd2ord_less [OF va vb]) (simp add: date_lt_def)
  have bwd: "toordinal b < toordinal a" if "date_lt b a"
    unfolding toordinal_def using that by (intro ymd2ord_less [OF vb va]) (simp add: date_lt_def)
  have tri: "date_lt a b \<or> date_lt b a
      \<or> (year a = year b \<and> month a = month b \<and> day a = day b)"
    unfolding date_lt_def by arith
  have eq: "toordinal a = toordinal b"
    if "year a = year b \<and> month a = month b \<and> day a = day b"
    using that by (simp add: toordinal_def)
  show ?thesis using fwd bwd tri eq by fastforce
qed

lemma date_le_toordinal:
  assumes "valid_date a" "valid_date b"
  shows "date_le a b \<longleftrightarrow> toordinal a \<le> toordinal b"
proof -
  have tri: "date_lt a b \<or> date_lt b a
      \<or> (year a = year b \<and> month a = month b \<and> day a = day b)"
    unfolding date_lt_def by arith
  have eq: "toordinal a = toordinal b"
    if "year a = year b \<and> month a = month b \<and> day a = day b"
    using that by (simp add: toordinal_def)
  show ?thesis
    unfolding date_le_def
    using date_lt_toordinal [OF assms] date_lt_toordinal [OF assms(2,1)] tri eq by fastforce
qed

lemma toordinal_inj:
  assumes "valid_date a" "valid_date b" "toordinal a = toordinal b"
  shows "a = b"
proof -
  have tri: "date_lt a b \<or> date_lt b a
      \<or> (year a = year b \<and> month a = month b \<and> day a = day b)"
    unfolding date_lt_def by arith
  then have "year a = year b \<and> month a = month b \<and> day a = day b"
    using date_lt_toordinal [OF assms(1,2)] date_lt_toordinal [OF assms(2,1)] assms(3) by auto
  then show ?thesis by simp
qed

lemma fromordinal_ok:
  assumes "1 \<le> n" "n \<le> MAXORDINAL"
  shows "\<exists>dt. fromordinal n = Inr dt \<and> valid_date dt \<and> toordinal dt = n"
proof -
  obtain y m d where res: "ord2ymd n = (y, m, d)" by (cases "ord2ymd n") auto
  from ord2ymd_correct [OF assms(1) res]
  have ord: "ymd2ord y m d = n" and v: "1 \<le> y" "1 \<le> m" "m \<le> 12" "1 \<le> d" "d \<le> days_in_month y m"
    by simp_all
  have "y \<le> 9999"
  proof (rule ccontr)
    assume "\<not> y \<le> 9999"
    then have "10000 \<le> y" by simp
    then have "days_before_year 10000 \<le> days_before_year y" by (rule days_before_year_mono)
    also have "\<dots> < ymd2ord y m d" by (rule ymd2ord_year_bounds(1) [OF v(2-5)])
    finally show False using ord assms(2) by (simp add: days_before_year_10000)
  qed
  then show ?thesis
    using v ord res
    by (simp add: fromordinal_def new_date_def valid_date_def toordinal_def MINYEAR_def MAXYEAR_def)
qed

lemma fromordinal_toordinal:
  assumes "valid_date dt"
  shows "fromordinal (toordinal dt) = Inr dt"
proof -
  from fromordinal_ok [OF toordinal_range [OF assms]]
  obtain dt' where r: "fromordinal (toordinal dt) = Inr dt'" "valid_date dt'"
    "toordinal dt' = toordinal dt" by blast
  from toordinal_inj [OF r(2) assms r(3)] r(1) show ?thesis by simp
qed

lemma add_days_ok:
  assumes "valid_date dt" "1 \<le> toordinal dt + k" "toordinal dt + k \<le> MAXORDINAL"
  shows "\<exists>dt'. add_days dt k = Inr dt' \<and> valid_date dt' \<and> toordinal dt' = toordinal dt + k"
  using fromordinal_ok [OF assms(2,3)] assms(2,3) by (simp add: add_days_def Let_def)

lemma add_days_overflow:
  assumes "\<not> (1 \<le> toordinal dt + k \<and> toordinal dt + k \<le> MAXORDINAL)"
  shows "add_days dt k = Inl DateOverflow"
  using assms by (auto simp add: add_days_def Let_def)

lemma new_date_Inr:
  "new_date y m d = Inr dt \<longleftrightarrow> dt = \<lparr>year = y, month = m, day = d\<rparr> \<and> valid_date dt"
  by (auto simp: new_date_def valid_date_def)



lemma add_days_toordinal:
  assumes "add_days dt k = Inr dt'"
  shows "toordinal dt' = toordinal dt + k \<and> valid_date dt'"
proof (cases "1 \<le> toordinal dt + k \<and> toordinal dt + k \<le> MAXORDINAL")
  case True
  then obtain x where "fromordinal (toordinal dt + k) = Inr x" "valid_date x"
    "toordinal x = toordinal dt + k" using fromordinal_ok by blast
  then show ?thesis using assms True by (simp add: add_days_def Let_def)
next
  case False
  then show ?thesis using assms by (auto simp: add_days_def Let_def)
qed



lemma mod_pred:
  fixes z k :: int
  assumes "0 < k" "z mod k \<noteq> 0"
  shows "(z - 1) mod k = z mod k - 1"
proof (rule int_mod_pos_eq [where q = "z div k"])
  show "z - 1 = k * (z div k) + (z mod k - 1)" by simp
  have "0 \<le> z mod k" using assms(1) by simp
  with assms(2) show "0 \<le> z mod k - 1" by simp
  have "z mod k < k" using assms(1) by simp
  then show "z mod k - 1 < k" by simp
qed

lemma weekday_pred:
  assumes wd: "weekday date \<noteq> 0" and step: "add_days date (- 1) = Inr date'"
  shows "weekday date' = weekday date - 1"
proof -
  from add_days_toordinal [OF step] have "toordinal date' = toordinal date - 1" by simp
  then have "weekday date' = (toordinal date + 6 - 1) mod 7" by (simp add: weekday_def)
  also have "\<dots> = weekday date - 1"
    unfolding weekday_def by (rule mod_pred) (use wd in \<open>simp_all add: weekday_def\<close>)
  finally show ?thesis .
qed

lemma weekday_range: "0 \<le> weekday dt \<and> weekday dt < 7"
  by (simp add: weekday_def)



section \<open>Backing up to the last Monday\<close>

text \<open>
  The loop of \<open>gen_calendar\<close>:
  \<^verbatim>\<open>while date.weekday() != 0: date -= datetime.timedelta(days=1)\<close>
\<close>


function back_to_monday :: "date \<Rightarrow> error + date" where
  "back_to_monday date =
     (if weekday date \<noteq> 0
      then (case add_days date (- 1) of Inl e \<Rightarrow> Inl e | Inr date' \<Rightarrow> back_to_monday date')
      else Inr date)"
  by pat_completeness auto
termination
proof (relation "measure (\<lambda>dt. nat (weekday dt))")
  show "wf (measure (\<lambda>dt. nat (weekday dt)))" by simp
next
  fix date date' :: date
  assume "weekday date \<noteq> 0" and "add_days date (- 1) = Inr date'"
  from weekday_pred [OF this] weekday_range [of date] \<open>weekday date \<noteq> 0\<close>
  show "(date', date) \<in> measure (\<lambda>dt. nat (weekday dt))" by simp
qed


section \<open>Strings\<close>

text \<open>
  A Python \<open>str\<close> is modelled as a \<open>string\<close>, a list of 8-bit characters: the model
  covers the strings whose code points are below 256. Among these the decimal digits are
  \<open>0\<close> to \<open>9\<close> and the white space of \<open>str.strip()\<close> is the set below.
\<close>

definition is_space :: "char \<Rightarrow> bool" where
  "is_space c \<longleftrightarrow> c \<in> set [CHR 0x09, CHR 0x0A, CHR 0x0B, CHR 0x0C, CHR 0x0D,
     CHR 0x1C, CHR 0x1D, CHR 0x1E, CHR 0x1F, CHR 0x20, CHR 0x85, CHR 0xA0]"

definition strip :: "string \<Rightarrow> string" where
  "strip s = rev (dropWhile is_space (rev (dropWhile is_space s)))"

definition is_digit :: "char \<Rightarrow> bool" where
  "is_digit c \<longleftrightarrow> c \<in> set ''0123456789''"

definition is_nonzero_digit :: "char \<Rightarrow> bool" where
  "is_nonzero_digit c \<longleftrightarrow> c \<in> set ''123456789''"

definition digit_val :: "char \<Rightarrow> int" where
  "digit_val c = int (length (takeWhile (\<lambda>x. x \<noteq> c) ''0123456789''))"

text \<open>\<open>int(s)\<close> on a run of digits, which \<open>int\<close> first strips of white space.\<close>

definition py_int :: "string \<Rightarrow> int" where
  "py_int s = foldl (\<lambda>a c. 10 * a + digit_val c) 0 (strip s)"

section \<open>strptime\<close>

text \<open>
  \<open>datetime.strptime(data_string, format)\<close> turns the format into a regular expression,
  one named group per directive, and matches it at the start of the string with
  backtracking. The groups of the three directives the program uses are

  \<^item> \<open>%d\<close>: \<open>3[0-1]|[1-2]\d|0[1-9]|[1-9]| [1-9]\<close>
  \<^item> \<open>%m\<close>: \<open>1[0-2]|0[1-9]|[1-9]\<close>
  \<^item> \<open>%Y\<close>: \<open>\d\d\d\d\<close>

  A matcher returns the list of its matches as pairs of the matched text and the rest of
  the input, in the order in which the backtracking search tries them; the match found
  is the first of the list. The formats of the program contain no white space, which
  \<open>strptime\<close> would match against any run of white space.
\<close>

fun chars :: "(char \<Rightarrow> bool) list \<Rightarrow> string \<Rightarrow> (string \<times> string) list" where
  "chars [] s = [([], s)]"
| "chars (p # ps) [] = []"
| "chars (p # ps) (c # cs) = (if p c then map (\<lambda>(t, r). (c # t, r)) (chars ps cs) else [])"

definition re_d :: "string \<Rightarrow> (string \<times> string) list" where
  "re_d s = chars [(\<lambda>c. c = CHR ''3''), (\<lambda>c. c \<in> set ''01'')] s
          @ chars [(\<lambda>c. c \<in> set ''12''), is_digit] s
          @ chars [(\<lambda>c. c = CHR ''0''), is_nonzero_digit] s
          @ chars [is_nonzero_digit] s
          @ chars [(\<lambda>c. c = CHR '' ''), is_nonzero_digit] s"

definition re_m :: "string \<Rightarrow> (string \<times> string) list" where
  "re_m s = chars [(\<lambda>c. c = CHR ''1''), (\<lambda>c. c \<in> set ''012'')] s
          @ chars [(\<lambda>c. c = CHR ''0''), is_nonzero_digit] s
          @ chars [is_nonzero_digit] s"

definition re_Y :: "string \<Rightarrow> (string \<times> string) list" where
  "re_Y s = chars [is_digit, is_digit, is_digit, is_digit] s"

datatype directive = Dir char | Lit char

fun pattern :: "string \<Rightarrow> directive list" where
  "pattern [] = []"
| "pattern [c] = [Lit c]"
| "pattern (c # k # f) = (if c = CHR ''%'' then Dir k # pattern f else Lit c # pattern (k # f))"

definition re_directive :: "char \<Rightarrow> string \<Rightarrow> (string \<times> string) list" where
  "re_directive k s =
     (if k = CHR ''d'' then re_d s else if k = CHR ''m'' then re_m s
      else if k = CHR ''Y'' then re_Y s else [])"

text \<open>The groups found are an association list from the directive to its text.\<close>

fun re_match :: "directive list \<Rightarrow> string \<Rightarrow> ((char \<times> string) list \<times> string) list" where
  "re_match [] s = [([], s)]"
| "re_match (Lit c # f) s =
     concat (map (\<lambda>(t, r). re_match f r) (chars [(\<lambda>x. x = c)] s))"
| "re_match (Dir k # f) s =
     concat (map (\<lambda>(t, r). map (\<lambda>(g, r'). ((k, t) # g, r')) (re_match f r)) (re_directive k s))"

definition group_int :: "(char \<times> string) list \<Rightarrow> char \<Rightarrow> int \<Rightarrow> int" where
  "group_int found k dflt = (case map_of found k of None \<Rightarrow> dflt | Some t \<Rightarrow> py_int t)"

definition strptime :: "string \<Rightarrow> string \<Rightarrow> error + date" where
  "strptime data_string format =
     (case re_match (pattern format) data_string of
        [] \<Rightarrow> Inl NoFormatMatch
      | (found, rest) # _ \<Rightarrow>
          if rest \<noteq> [] then Inl UnconvertedData
          else new_date (group_int found (CHR ''Y'') 1900) (group_int found (CHR ''m'') 1)
                 (group_int found (CHR ''d'') 1))"

section \<open>parse_date\<close>

text \<open>
  The loop over the formats: an exception of \<open>strptime\<close> is swallowed by the bare
  \<open>except\<close> and the next format is tried; when the formats are used up the function
  raises its own \<open>ValueError\<close>.
\<close>

fun parse_date_loop :: "string list \<Rightarrow> string \<Rightarrow> error + date" where
  "parse_date_loop [] date = Inl IncorrectDateFormat"
| "parse_date_loop (f # formats) date =
     (case strptime date f of Inl _ \<Rightarrow> parse_date_loop formats date | Inr ret \<Rightarrow> Inr ret)"

text \<open>\<open>stripped\<close> is computed and never read: \<open>strptime\<close> is called on \<open>date\<close>.\<close>

definition parse_date :: "string \<Rightarrow> error + date" where
  "parse_date date =
     (let formats = [''%d/%m/%Y'', ''%d-%m-%Y''];
          stripped = strip date
      in parse_date_loop formats date)"

section \<open>The week classifier\<close>

text \<open>
  A fill colour is the triple of its red, green and blue parts in hundredths:
  \<open>(0.88, 0.88, 0.88)\<close> is \<open>(88, 88, 88)\<close> and the default \<open>(1, 1, 1)\<close> is
  \<open>(100, 100, 100)\<close>.
\<close>

type_synonym colour = "int \<times> int \<times> int"

definition LIVED_COLOUR :: colour where "LIVED_COLOUR = (88, 88, 88)"
definition BIRTHDAY_COLOUR :: colour where "BIRTHDAY_COLOUR = (55, 55, 55)"
definition NEWYEAR_COLOUR :: colour where "NEWYEAR_COLOUR = (80, 80, 80)"
definition WHITE :: colour where "WHITE = (100, 100, 100)"

definition NUM_ROWS :: int where "NUM_ROWS = 88"
definition NUM_COLUMNS :: nat where "NUM_COLUMNS = 52"
definition MAX_TITLE_SIZE :: nat where "MAX_TITLE_SIZE = 30"

text \<open>
  \<open>is_current_week\<close> builds the end of the week and the two anniversaries before it
  compares anything, so each of the three can raise. The variable \<open>end\<close> of the source
  is \<open>end'\<close> here.
\<close>

definition is_current_week :: "date \<Rightarrow> int \<Rightarrow> int \<Rightarrow> error + bool" where
  "is_current_week now m d =
     (case add_days now 7 of
        Inl e \<Rightarrow> Inl e
      | Inr end' \<Rightarrow>
          (case new_date (year now) m d of
             Inl e \<Rightarrow> Inl e
           | Inr date1 \<Rightarrow>
               (case new_date (year now + 1) m d of
                  Inl e \<Rightarrow> Inl e
                | Inr date2 \<Rightarrow>
                    Inr ((date_le now date1 \<and> date_lt date1 end')
                       \<or> (date_le now date2 \<and> date_lt date2 end')))))"

text \<open>
  \<open>datetime.date.today()\<close> is the parameter \<open>today\<close> of every function that reads the
  clock, directly or through a callee.
\<close>

definition is_week_in_past :: "date \<Rightarrow> date \<Rightarrow> error + bool" where
  "is_week_in_past today date =
     (case add_days today (- weekday today) of
        Inl e \<Rightarrow> Inl e
      | Inr last_monday \<Rightarrow> Inr (date_lt date last_monday))"

text \<open>
  \<open>cell_fill\<close> is the choice of \<open>fill\<close> in the body of the loop of \<open>draw_row\<close>. With
  \<open>fill_lived\<close> off, \<open>is_week_in_past\<close> is not called; a branch that is taken does not
  evaluate the conditions after it.
\<close>

definition cell_fill :: "date \<Rightarrow> date \<Rightarrow> date \<Rightarrow> bool \<Rightarrow> error + colour" where
  "cell_fill today start_date date fill_lived =
     (case (if fill_lived then is_week_in_past today date else Inr False) of
        Inl e \<Rightarrow> Inl e
      | Inr lived \<Rightarrow>
          if lived then Inr LIVED_COLOUR
          else (case is_current_week date (month start_date) (day start_date) of
                  Inl e \<Rightarrow> Inl e
                | Inr birthday \<Rightarrow>
                    if birthday then Inr BIRTHDAY_COLOUR
                    else (case is_current_week date 1 1 of
                            Inl e \<Rightarrow> Inl e
                          | Inr newyear \<Rightarrow>
                              if newyear then Inr NEWYEAR_COLOUR else Inr WHITE)))"

section \<open>Drawing\<close>

text \<open>
  The cairo context is the list of the drawing calls made on it so far, oldest first.
  Coordinates and text extents are floating point and are left out; a text is recorded
  by what it is made from.
\<close>

datatype label =
    Title string        \<comment> \<open>the title as given\<close>
  | Legend string       \<comment> \<open>\<open>i18n.t\<close> of this key\<close>
  | WeekNumber nat      \<comment> \<open>\<open>str(i + 1)\<close>\<close>
  | DateLabel date      \<comment> \<open>\<open>date.strftime('%d %b, %Y')\<close>\<close>

datatype draw_op =
    Fill_page
  | Show_text label
  | Draw_square colour
  | Show_page

type_synonym canvas = "draw_op list"

definition draw_square :: "canvas \<Rightarrow> colour \<Rightarrow> canvas" where
  "draw_square ctx fillcolour = ctx @ [Draw_square fillcolour]"

text \<open>
  A procedure that draws returns the context as it is when the procedure returns or
  raises, and the exception raised, if any.
\<close>

fun draw_row_loop ::
  "nat \<Rightarrow> date \<Rightarrow> canvas \<Rightarrow> date \<Rightarrow> date \<Rightarrow> bool \<Rightarrow> canvas \<times> error option" where
  "draw_row_loop 0 today ctx start_date date fill_lived = (ctx, None)"
| "draw_row_loop (Suc k) today ctx start_date date fill_lived =
     (case cell_fill today start_date date fill_lived of
        Inl e \<Rightarrow> (ctx, Some e)
      | Inr fill \<Rightarrow>
          (let ctx = draw_square ctx fill
           in case add_days date 7 of
                Inl e \<Rightarrow> (ctx, Some e)
              | Inr date' \<Rightarrow> draw_row_loop k today ctx start_date date' fill_lived))"

definition draw_row :: "date \<Rightarrow> canvas \<Rightarrow> date \<Rightarrow> date \<Rightarrow> bool \<Rightarrow> canvas \<times> error option" where
  "draw_row today ctx start_date date fill_lived =
     draw_row_loop NUM_COLUMNS today ctx start_date date fill_lived"

definition draw_key_item :: "canvas \<Rightarrow> string \<Rightarrow> colour \<Rightarrow> canvas" where
  "draw_key_item ctx desc colour = draw_square ctx colour @ [Show_text (Legend desc)]"

fun draw_grid_loop ::
  "nat \<Rightarrow> date \<Rightarrow> canvas \<Rightarrow> date \<Rightarrow> date \<Rightarrow> bool \<Rightarrow> canvas \<times> error option" where
  "draw_grid_loop 0 today ctx start_date date fill_lived = (ctx, None)"
| "draw_grid_loop (Suc k) today ctx start_date date fill_lived =
     (let ctx = ctx @ [Show_text (DateLabel date)]
      in case draw_row today ctx start_date date fill_lived of
           (ctx, Some e) \<Rightarrow> (ctx, Some e)
         | (ctx, None) \<Rightarrow>
             (case add_days date (7 * 52) of
                Inl e \<Rightarrow> (ctx, Some e)
              | Inr date' \<Rightarrow> draw_grid_loop k today ctx start_date date' fill_lived))"

text \<open>
  \<open>draw_grid\<close> keeps the date it is given as \<open>start_date\<close> and hands it to every
  \<open>draw_row\<close>. \<open>range(years)\<close> is empty for a negative \<open>years\<close>.
\<close>

definition draw_grid :: "date \<Rightarrow> canvas \<Rightarrow> date \<Rightarrow> int \<Rightarrow> bool \<Rightarrow> canvas \<times> error option" where
  "draw_grid today ctx date years fill_lived =
     (let start_date = date;
          ctx = draw_key_item ctx ''Week of your birthday'' BIRTHDAY_COLOUR;
          ctx = draw_key_item ctx ''First week of the new year'' NEWYEAR_COLOUR;
          ctx = draw_key_item ctx ''Weeks lived'' LIVED_COLOUR;
          ctx = ctx @ map (\<lambda>i. Show_text (WeekNumber (i + 1))) [0..<NUM_COLUMNS]
      in draw_grid_loop (nat years) today ctx start_date date fill_lived)"

section \<open>gen_calendar and main\<close>

text \<open>
  What the process leaves behind: what was written to standard output, in order, and
  the files of the file system. The single page that \<open>out.getvalue()\<close> holds after
  \<open>surface.finish()\<close> is the list of the drawing calls.
\<close>

datatype written =
    Document canvas     \<comment> \<open>\<open>sys.stdout.buffer.write(out.getvalue())\<close>\<close>
  | Message error       \<comment> \<open>\<open>print("Error: %s" % e)\<close>\<close>

record world =
  stdout :: "written list"
  files :: "string \<rightharpoonup> canvas"

text \<open>
  \<open>gen_calendar\<close> returns its context, the world and the exception raised, if any.
  The parameter \<open>filename\<close> is not read.
\<close>

definition gen_calendar ::
  "date \<Rightarrow> date \<Rightarrow> string \<Rightarrow> string option \<Rightarrow> int \<Rightarrow> bool \<Rightarrow> world
     \<Rightarrow> canvas \<times> world \<times> error option" where
  "gen_calendar today start_date title filename years fill_lived w =
     (if length title > MAX_TITLE_SIZE then ([], w, Some TitleTooLong)
      else
        (let ctx = [Fill_page];
             ctx = ctx @ [Show_text (Title title)]
         in case back_to_monday start_date of
              Inl e \<Rightarrow> (ctx, w, Some e)
            | Inr date \<Rightarrow>
                (case draw_grid today ctx date years fill_lived of
                   (ctx, Some e) \<Rightarrow> (ctx, w, Some e)
                 | (ctx, None) \<Rightarrow>
                     (let ctx = ctx @ [Show_page]
                      in (ctx, w\<lparr>stdout := stdout w @ [Document ctx]\<rparr>, None)))))"

text \<open>\<open>os.path.splitext\<close> on a POSIX path; \<open>rfind\<close> is \<open>-1\<close> when the character is absent.\<close>

definition rfind :: "string \<Rightarrow> char \<Rightarrow> int" where
  "rfind p c =
     (if c \<in> set p then int (length p) - 1 - int (length (takeWhile (\<lambda>x. x \<noteq> c) (rev p)))
      else - 1)"

definition splitext :: "string \<Rightarrow> string \<times> string" where
  "splitext p =
     (let sepIndex = rfind p (CHR ''/'');
          dotIndex = rfind p (CHR ''.'')
      in if dotIndex > sepIndex
            \<and> list_ex (\<lambda>c. c \<noteq> CHR ''.'')
                 (take (nat (dotIndex - (sepIndex + 1))) (drop (nat (sepIndex + 1)) p))
         then (take (nat dotIndex) p, drop (nat dotIndex) p)
         else (p, []))"

text \<open>The command line as \<open>argparse\<close> hands it over.\<close>

record args =
  arg_date :: string
  arg_filename :: string
  arg_stdout :: bool
  arg_title :: string
  arg_years :: int
  arg_locale :: string
  arg_fill_lived :: bool

text \<open>
  \<open>main\<close> returns the world and the exception that leaves it, if any. It begins with
  \<open>locale.setlocale(locale.LC_TIME, args.locale)\<close>, which raises \<open>locale.Error\<close> for a
  locale the system does not have; the call stands before the first \<open>try\<close>, so that
  exception is not caught and nothing is printed to standard output. The locales of the
  system are the parameter \<open>locales\<close>. \<open>i18n.set\<close> only stores the tag. The locale
  decides how the texts \<open>Legend\<close> and \<open>DateLabel\<close> read, and nothing else. Every
  exception of \<open>parse_date\<close> and of \<open>gen_calendar\<close> is caught and printed.
\<close>

definition main :: "date \<Rightarrow> string list \<Rightarrow> args \<Rightarrow> world \<Rightarrow> world \<times> error option" where
  "main today locales a w =
     (if arg_locale a \<notin> set locales then (w, Some LocaleError)
      else
        (case parse_date (arg_date a) of
           Inl e \<Rightarrow> (w\<lparr>stdout := stdout w @ [Message e]\<rparr>, None)
         | Inr start_date \<Rightarrow>
             (let doc_name = (if arg_stdout a then None
                              else Some (fst (splitext (arg_filename a)) @ ''.pdf''));
                  years = max 1 (min 88 (arg_years a))
              in case gen_calendar today start_date (arg_title a) doc_name years
                        (arg_fill_lived a) w of
                   (ctx, w', Some e) \<Rightarrow> (w'\<lparr>stdout := stdout w' @ [Message e]\<rparr>, None)
                 | (ctx, w', None) \<Rightarrow> (w', None))))"

section \<open>The anchored date\<close>


lemma back_to_monday_ok:
  assumes "valid_date dt"
  shows "\<exists>m. back_to_monday dt = Inr m \<and> valid_date m \<and> weekday m = 0
           \<and> toordinal m = toordinal dt - weekday dt"
  using assms
proof (induction dt rule: back_to_monday.induct)
  case (1 dt)
  show ?case
  proof (cases "weekday dt = 0")
    case True
    then show ?thesis using "1.prems" by (subst back_to_monday.simps) simp
  next
    case False
    have "1 \<le> toordinal dt" by (rule toordinal_range(1) [OF "1.prems"])
    moreover have "toordinal dt \<noteq> 1" using False by (auto simp: weekday_def)
    ultimately have lo: "1 \<le> toordinal dt + (- 1)" by simp
    have hi: "toordinal dt + (- 1) \<le> MAXORDINAL"
      using toordinal_range(2) [OF "1.prems"] by simp
    from add_days_ok [OF "1.prems" lo hi]
    obtain dt' where step: "add_days dt (- 1) = Inr dt'" and v: "valid_date dt'"
      and ord: "toordinal dt' = toordinal dt + (- 1)" by blast
    from "1.IH" [OF False step v]
    obtain m where m: "back_to_monday dt' = Inr m" "valid_date m" "weekday m = 0"
      "toordinal m = toordinal dt' - weekday dt'" by blast
    have "back_to_monday dt = Inr m"
      using False step m(1) by (subst back_to_monday.simps) simp
    moreover have "toordinal m = toordinal dt - weekday dt"
      using m(4) ord weekday_pred [OF False step] by simp
    ultimately show ?thesis using m(2,3) by simp
  qed
qed


lemma draw_row_loop_extends:
  "\<exists>ext. fst (draw_row_loop k today ctx s d fl) = ctx @ ext"
proof (induction k arbitrary: ctx d)
  case 0
  then show ?case by simp
next
  case (Suc k)
  show ?case
  proof (cases "cell_fill today s d fl")
    case (Inl e)
    then show ?thesis by simp
  next
    case (Inr fill)
    show ?thesis
    proof (cases "add_days d 7")
      case (Inl e)
      with Inr show ?thesis by (simp add: draw_square_def)
    next
      case d': (Inr d')
      from Suc.IH [of "draw_square ctx fill" d']
      obtain ext where "fst (draw_row_loop k today (draw_square ctx fill) s d' fl)
          = draw_square ctx fill @ ext" by blast
      with Inr d' show ?thesis by (simp add: draw_square_def)
    qed
  qed
qed

lemma draw_grid_loop_extends:
  "\<exists>ext. fst (draw_grid_loop k today ctx s d fl) = ctx @ ext"
proof (induction k arbitrary: ctx d)
  case 0
  then show ?case by simp
next
  case (Suc k)
  obtain c r where row: "draw_row today (ctx @ [Show_text (DateLabel d)]) s d fl = (c, r)"
    by (cases "draw_row today (ctx @ [Show_text (DateLabel d)]) s d fl")
  from draw_row_loop_extends [of NUM_COLUMNS today "ctx @ [Show_text (DateLabel d)]" s d fl] row
  obtain ext where c: "c = ctx @ Show_text (DateLabel d) # ext"
    by (auto simp: draw_row_def)
  show ?case
  proof (cases r)
    case (Some e)
    with row c show ?thesis by simp
  next
    case None
    show ?thesis
    proof (cases "add_days d (7 * 52)")
      case (Inl e)
      with row None c show ?thesis by simp
    next
      case (Inr d')
      from Suc.IH [of c d'] obtain ext' where
        "fst (draw_grid_loop k today c s d' fl) = c @ ext'" by blast
      with row None Inr c show ?thesis by simp
    qed
  qed
qed

lemma draw_grid_loop_first:
  "\<exists>ext. fst (draw_grid_loop (Suc k) today ctx s d fl) = ctx @ Show_text (DateLabel d) # ext"
proof -
  obtain c r where row: "draw_row today (ctx @ [Show_text (DateLabel d)]) s d fl = (c, r)"
    by (cases "draw_row today (ctx @ [Show_text (DateLabel d)]) s d fl")
  from draw_row_loop_extends [of NUM_COLUMNS today "ctx @ [Show_text (DateLabel d)]" s d fl] row
  obtain ext where c: "c = ctx @ Show_text (DateLabel d) # ext"
    by (auto simp: draw_row_def)
  show ?thesis
  proof (cases r)
    case (Some e)
    with row c show ?thesis by simp
  next
    case None
    show ?thesis
    proof (cases "add_days d (7 * 52)")
      case (Inl e)
      with row None c show ?thesis by simp
    next
      case (Inr d')
      from draw_grid_loop_extends [of k today c s d' fl] obtain ext' where
        "fst (draw_grid_loop k today c s d' fl) = c @ ext'" by blast
      with row None Inr c show ?thesis by simp
    qed
  qed
qed

text \<open>The legend and the week numbers are 58 drawing calls.\<close>

lemma draw_grid_first_row:
  assumes "1 \<le> years"
  shows "\<exists>hd ext. length hd = 58
           \<and> fst (draw_grid today ctx d years fl) = ctx @ hd @ Show_text (DateLabel d) # ext"
proof -
  obtain k where k: "nat years = Suc k" using assms by (cases "nat years") auto
  define hd where "hd = [Draw_square BIRTHDAY_COLOUR, Show_text (Legend ''Week of your birthday''),
      Draw_square NEWYEAR_COLOUR, Show_text (Legend ''First week of the new year''),
      Draw_square LIVED_COLOUR, Show_text (Legend ''Weeks lived'')]
      @ map (\<lambda>i. Show_text (WeekNumber (i + 1))) [0..<NUM_COLUMNS]"
  have len: "length hd = 58" by (simp add: hd_def NUM_COLUMNS_def)
  have g: "draw_grid today ctx d years fl = draw_grid_loop (Suc k) today (ctx @ hd) d d fl"
    by (simp add: draw_grid_def Let_def draw_key_item_def draw_square_def hd_def k)
  from draw_grid_loop_first [of k today "ctx @ hd" d d fl] g len show ?thesis by auto
qed

lemma gen_calendar_draws_grid:
  assumes "length title \<le> 30" and "back_to_monday start_date = Inr date"
  shows "gen_calendar today start_date title filename years fill_lived w =
           (case draw_grid today [Fill_page, Show_text (Title title)] date years fill_lived of
              (ctx, Some e) \<Rightarrow> (ctx, w, Some e)
            | (ctx, None) \<Rightarrow>
                (ctx @ [Show_page], w\<lparr>stdout := stdout w @ [Document (ctx @ [Show_page])]\<rparr>, None))"
  using assms by (simp add: gen_calendar_def MAX_TITLE_SIZE_def Let_def)

lemma gen_calendar_first_row:
  assumes "length title \<le> 30" and "back_to_monday start_date = Inr date" and "1 \<le> years"
  shows "60 < length (fst (gen_calendar today start_date title filename years fill_lived w))
       \<and> fst (gen_calendar today start_date title filename years fill_lived w) ! 60
           = Show_text (DateLabel date)"
proof -
  let ?c0 = "[Fill_page, Show_text (Title title)]"
  from draw_grid_first_row [OF assms(3), of today ?c0 date fill_lived]
  obtain hd ext where hd: "length hd = 58"
    and g: "fst (draw_grid today ?c0 date years fill_lived)
        = ?c0 @ hd @ Show_text (DateLabel date) # ext" by blast
  obtain c r where cr: "draw_grid today ?c0 date years fill_lived = (c, r)"
    by (cases "draw_grid today ?c0 date years fill_lived")
  with g have c: "c = (?c0 @ hd) @ Show_text (DateLabel date) # ext" by simp
  have l: "length (?c0 @ hd) = 60" using hd by simp
  have "\<exists>ext'. fst (gen_calendar today start_date title filename years fill_lived w)
      = (?c0 @ hd) @ Show_text (DateLabel date) # ext'"
    unfolding gen_calendar_draws_grid [OF assms(1,2)] cr
    by (cases r) (simp_all add: c)
  then obtain ext' where "fst (gen_calendar today start_date title filename years fill_lived w)
      = (?c0 @ hd) @ Show_text (DateLabel date) # ext'" by blast
  with l show ?thesis by (simp add: nth_append del: append.simps append_assoc)
qed

text \<open>
  C4. For every well-formed start date the loop of \<open>gen_calendar\<close> returns, without an
  exception, the Monday on or before the start date: the result has weekday 0, it is not
  after the start date, and the start date is less than seven days after it. When the
  date seven days after the result exists, the start date is before it. No argument of
  \<open>gen_calendar\<close> switches this off: whatever the other arguments are, a title that
  passes the check is followed by \<open>draw_grid\<close> on that Monday, and with at least one
  row the label of the first row, the drawing call number 60, is the label of that Monday.
\<close>

theorem anchor_is_monday_on_or_before:
  assumes "valid_date start_date"
  shows "\<exists>date. back_to_monday start_date = Inr date \<and> valid_date date
           \<and> weekday date = 0
           \<and> date_le date start_date
           \<and> toordinal date \<le> toordinal start_date
           \<and> toordinal start_date < toordinal date + 7
           \<and> (\<forall>e. add_days date 7 = Inr e \<longrightarrow> date_lt start_date e)
           \<and> (\<forall>today title filename years fill_lived w. length title \<le> 30 \<longrightarrow>
                 gen_calendar today start_date title filename years fill_lived w =
                   (case draw_grid today [Fill_page, Show_text (Title title)] date years
                           fill_lived of
                      (ctx, Some e) \<Rightarrow> (ctx, w, Some e)
                    | (ctx, None) \<Rightarrow>
                        (ctx @ [Show_page],
                         w\<lparr>stdout := stdout w @ [Document (ctx @ [Show_page])]\<rparr>, None)))
           \<and> (\<forall>today title filename years fill_lived w. length title \<le> 30 \<and> 1 \<le> years \<longrightarrow>
                 60 < length (fst (gen_calendar today start_date title filename years fill_lived w))
                 \<and> fst (gen_calendar today start_date title filename years fill_lived w) ! 60
                     = Show_text (DateLabel date))"
proof -
  from back_to_monday_ok [OF assms]
  obtain m where m: "back_to_monday start_date = Inr m" "valid_date m" "weekday m = 0"
    "toordinal m = toordinal start_date - weekday start_date" by blast
  have le: "toordinal m \<le> toordinal start_date" and lt: "toordinal start_date < toordinal m + 7"
    using m(4) weekday_range [of start_date] by simp_all
  have dle: "date_le m start_date" using date_le_toordinal [OF m(2) assms] le by simp
  have dlt: "date_lt start_date e" if "add_days m 7 = Inr e" for e
  proof -
    from add_days_toordinal [OF that] have "toordinal e = toordinal m + 7" "valid_date e"
      by simp_all
    then show ?thesis using date_lt_toordinal [OF assms, of e] lt by simp
  qed
  have grid: "gen_calendar today start_date title filename years fill_lived w =
        (case draw_grid today [Fill_page, Show_text (Title title)] m years fill_lived of
           (ctx, Some e) \<Rightarrow> (ctx, w, Some e)
         | (ctx, None) \<Rightarrow>
             (ctx @ [Show_page], w\<lparr>stdout := stdout w @ [Document (ctx @ [Show_page])]\<rparr>, None))"
    if "length title \<le> 30" for today title filename years fill_lived w
    by (rule gen_calendar_draws_grid [OF that m(1)])
  have first: "60 < length (fst (gen_calendar today start_date title filename years fill_lived w))
        \<and> fst (gen_calendar today start_date title filename years fill_lived w) ! 60
            = Show_text (DateLabel m)"
    if "length title \<le> 30 \<and> 1 \<le> years" for today title filename years fill_lived w
    using gen_calendar_first_row [OF _ m(1)] that by blast
  show ?thesis
    apply (rule exI [of _ m])
    apply (intro conjI allI impI)
    using m le lt dle dlt grid first by blast+
qed

theorem anchor_is_monday_on_or_before_witness:
  "valid_date \<lparr>year = 1990, month = 3, day = 15\<rparr>
   \<and> back_to_monday \<lparr>year = 1990, month = 3, day = 15\<rparr> = Inr \<lparr>year = 1990, month = 3, day = 12\<rparr>
   \<and> weekday \<lparr>year = 1990, month = 3, day = 12\<rparr> = 0
   \<and> date_le \<lparr>year = 1990, month = 3, day = 12\<rparr> \<lparr>year = 1990, month = 3, day = 15\<rparr>
   \<and> add_days \<lparr>year = 1990, month = 3, day = 12\<rparr> 7 = Inr \<lparr>year = 1990, month = 3, day = 19\<rparr>
   \<and> date_lt \<lparr>year = 1990, month = 3, day = 15\<rparr> \<lparr>year = 1990, month = 3, day = 19\<rparr>
   \<and> length ''CALENDARIO DELLA VITA'' \<le> 30 \<and> (1::int) \<le> 80
   \<and> fst (gen_calendar \<lparr>year = 2024, month = 1, day = 1\<rparr> \<lparr>year = 1990, month = 3, day = 15\<rparr>
          ''CALENDARIO DELLA VITA'' None 80 False \<lparr>stdout = [], files = Map.empty\<rparr>) ! 60
       = Show_text (DateLabel \<lparr>year = 1990, month = 3, day = 12\<rparr>)"
proof -
  have v: "valid_date \<lparr>year = 1990, month = 3, day = 15\<rparr>"
    by (simp add: valid_date_def MINYEAR_def MAXYEAR_def days_in_month_def DAYS_IN_MONTH_def)
  have b: "back_to_monday \<lparr>year = 1990, month = 3, day = 15\<rparr>
           = Inr \<lparr>year = 1990, month = 3, day = 12\<rparr>"
    by code_simp
  have a: "add_days \<lparr>year = 1990, month = 3, day = 12\<rparr> 7 = Inr \<lparr>year = 1990, month = 3, day = 19\<rparr>"
    by code_simp
  have t: "length ''CALENDARIO DELLA VITA'' \<le> 30 \<and> (1::int) \<le> 80" by simp
  from anchor_is_monday_on_or_before [OF v] b
  have all: "weekday \<lparr>year = 1990, month = 3, day = 12\<rparr> = 0
      \<and> date_le \<lparr>year = 1990, month = 3, day = 12\<rparr> \<lparr>year = 1990, month = 3, day = 15\<rparr>
      \<and> (\<forall>e. add_days \<lparr>year = 1990, month = 3, day = 12\<rparr> 7 = Inr e
             \<longrightarrow> date_lt \<lparr>year = 1990, month = 3, day = 15\<rparr> e)
      \<and> (\<forall>today title filename years fill_lived w. length title \<le> 30 \<and> 1 \<le> years \<longrightarrow>
            fst (gen_calendar today \<lparr>year = 1990, month = 3, day = 15\<rparr> title filename years
                   fill_lived w) ! 60
              = Show_text (DateLabel \<lparr>year = 1990, month = 3, day = 12\<rparr>))"
    by auto
  from all a have lt: "date_lt \<lparr>year = 1990, month = 3, day = 15\<rparr> \<lparr>year = 1990, month = 3, day = 19\<rparr>"
    by blast
  from all t have g: "fst (gen_calendar \<lparr>year = 2024, month = 1, day = 1\<rparr>
          \<lparr>year = 1990, month = 3, day = 15\<rparr> ''CALENDARIO DELLA VITA'' None 80 False
          \<lparr>stdout = [], files = Map.empty\<rparr>) ! 60
       = Show_text (DateLabel \<lparr>year = 1990, month = 3, day = 12\<rparr>)"
    by blast
  from v b a t all lt g show ?thesis by blast
qed

section \<open>Parsing the start date\<close>

text \<open>
  C7. \<open>parse_date\<close> tries \<open>%d/%m/%Y\<close> first and \<open>%d-%m-%Y\<close> second and returns the date
  of the first \<open>strptime\<close> that succeeds; it raises, and then its own format error,
  exactly when both fail.
\<close>

theorem parse_date_first_success:
  "parse_date s =
     (case strptime s ''%d/%m/%Y'' of
        Inr ret \<Rightarrow> Inr ret
      | Inl e1 \<Rightarrow>
          (case strptime s ''%d-%m-%Y'' of
             Inr ret \<Rightarrow> Inr ret
           | Inl e2 \<Rightarrow> Inl IncorrectDateFormat))
   \<and> ((\<exists>e. parse_date s = Inl e) \<longleftrightarrow>
        (\<exists>e1 e2. strptime s ''%d/%m/%Y'' = Inl e1 \<and> strptime s ''%d-%m-%Y'' = Inl e2))
   \<and> (\<forall>e. parse_date s = Inl e \<longrightarrow> e = IncorrectDateFormat)"
  by (auto simp: parse_date_def Let_def split: sum.splits)

theorem parse_date_first_success_witness:
  "strptime ''15-03-1990'' ''%d/%m/%Y'' = Inl NoFormatMatch
   \<and> strptime ''15-03-1990'' ''%d-%m-%Y'' = Inr \<lparr>year = 1990, month = 3, day = 15\<rparr>
   \<and> parse_date ''15-03-1990'' = Inr \<lparr>year = 1990, month = 3, day = 15\<rparr>
   \<and> strptime ''15.03.1990'' ''%d/%m/%Y'' = Inl NoFormatMatch
   \<and> strptime ''15.03.1990'' ''%d-%m-%Y'' = Inl NoFormatMatch
   \<and> parse_date ''15.03.1990'' = Inl IncorrectDateFormat"
proof -
  have a: "strptime ''15-03-1990'' ''%d/%m/%Y'' = Inl NoFormatMatch" by code_simp
  have b: "strptime ''15-03-1990'' ''%d-%m-%Y'' = Inr \<lparr>year = 1990, month = 3, day = 15\<rparr>"
    by code_simp
  have c: "strptime ''15.03.1990'' ''%d/%m/%Y'' = Inl NoFormatMatch" by code_simp
  have d: "strptime ''15.03.1990'' ''%d-%m-%Y'' = Inl NoFormatMatch" by code_simp
  show ?thesis
    using parse_date_first_success [of "''15-03-1990''"]
      parse_date_first_success [of "''15.03.1990''"] a b c d
    by simp
qed

text \<open>
  A string of the shape dd/mm/yyyy that names no calendar date is rejected by both
  \<open>strptime\<close> calls and gets the format error as well.
\<close>

lemma parse_date_no_such_day: "parse_date ''31/02/2020'' = Inl IncorrectDateFormat"
  by code_simp

text \<open>
  C8. \<open>parse_date\<close> does not trim its argument: \<open>stripped\<close> is computed and the untrimmed
  \<open>date\<close> is parsed. The string \<open>" 15/03/1990 "\<close> is rejected although its trimmed form
  parses to 15 March 1990.
\<close>

theorem parse_date_does_not_trim:
  "parse_date '' 15/03/1990 '' = Inl IncorrectDateFormat
   \<and> strip '' 15/03/1990 '' = ''15/03/1990''
   \<and> parse_date ''15/03/1990'' = Inr \<lparr>year = 1990, month = 3, day = 15\<rparr>"
  by code_simp

section \<open>The title check\<close>

text \<open>The exceptions of the date arithmetic, as opposed to the two of the program.\<close>

definition date_error :: "error \<Rightarrow> bool" where
  "date_error e \<longleftrightarrow> e = DateOverflow \<or> e = FieldOutOfRange"

lemma new_date_error: "new_date y m d = Inl e \<Longrightarrow> e = FieldOutOfRange"
  by (auto simp: new_date_def split: if_splits)

lemma add_days_error: "add_days dt k = Inl e \<Longrightarrow> date_error e"
  by (auto simp: add_days_def Let_def fromordinal_def date_error_def
      split: if_splits prod.splits dest: new_date_error)

lemma back_to_monday_error: "back_to_monday dt = Inl e \<Longrightarrow> date_error e"
proof (induction dt rule: back_to_monday.induct)
  case (1 dt)
  show ?case
  proof (cases "weekday dt = 0")
    case True
    with "1.prems" show ?thesis by (subst (asm) back_to_monday.simps) simp
  next
    case False
    show ?thesis
    proof (cases "add_days dt (- 1)")
      case (Inl e')
      with "1.prems" False have "e = e'" by (subst (asm) back_to_monday.simps) simp
      with add_days_error [OF Inl] show ?thesis by simp
    next
      case (Inr dt')
      with "1.prems" False have "back_to_monday dt' = Inl e"
        by (subst (asm) back_to_monday.simps) simp
      from "1.IH" [OF False Inr this] show ?thesis .
    qed
  qed
qed

lemma is_current_week_error: "is_current_week now m d = Inl e \<Longrightarrow> date_error e"
  by (auto simp: is_current_week_def date_error_def split: sum.splits
      dest: new_date_error add_days_error)

lemma is_week_in_past_error: "is_week_in_past today dt = Inl e \<Longrightarrow> date_error e"
  by (auto simp: is_week_in_past_def split: sum.splits dest: add_days_error)

lemma cell_fill_error: "cell_fill today s dt fl = Inl e \<Longrightarrow> date_error e"
  by (auto simp: cell_fill_def split: sum.splits if_splits
      dest: is_current_week_error is_week_in_past_error)

lemma draw_row_loop_error:
  "draw_row_loop k today ctx s dt fl = (ctx', Some e) \<Longrightarrow> date_error e"
proof (induction k arbitrary: ctx dt)
  case 0
  then show ?case by simp
next
  case (Suc k)
  then show ?case
    by (auto simp: Let_def split: sum.splits dest: cell_fill_error add_days_error)
qed

lemma draw_grid_loop_error:
  "draw_grid_loop k today ctx s dt fl = (ctx', Some e) \<Longrightarrow> date_error e"
proof (induction k arbitrary: ctx dt)
  case 0
  then show ?case by simp
next
  case (Suc k)
  then show ?case
    by (auto simp: Let_def draw_row_def split: sum.splits prod.splits option.splits
        dest: draw_row_loop_error add_days_error)
qed

lemma draw_grid_error: "draw_grid today ctx dt years fl = (ctx', Some e) \<Longrightarrow> date_error e"
  by (auto simp: draw_grid_def Let_def dest: draw_grid_loop_error)

lemma gen_calendar_error:
  assumes "gen_calendar today start_date title filename years fill_lived w = (ctx, w', Some e)"
  shows "e = TitleTooLong \<and> length title > 30 \<or> date_error e \<and> \<not> length title > 30"
proof (cases "length title > 30")
  case True
  with assms show ?thesis by (simp add: gen_calendar_def MAX_TITLE_SIZE_def)
next
  case short: False
  show ?thesis
  proof (cases "back_to_monday start_date")
    case (Inl e')
    with assms short have "e = e'" by (simp add: gen_calendar_def MAX_TITLE_SIZE_def)
    with back_to_monday_error [OF Inl] short show ?thesis by simp
  next
    case (Inr dt)
    obtain c r where g: "draw_grid today [Fill_page, Show_text (Title title)] dt years fill_lived
        = (c, r)" by (cases "draw_grid today [Fill_page, Show_text (Title title)] dt years fill_lived")
    show ?thesis
    proof (cases r)
      case None
      with assms short Inr g show ?thesis
        by (simp add: gen_calendar_def MAX_TITLE_SIZE_def Let_def)
    next
      case (Some e')
      with assms short Inr g have "e = e'"
        by (simp add: gen_calendar_def MAX_TITLE_SIZE_def Let_def)
      with draw_grid_error [of today _ dt years fill_lived c e'] g Some short
      show ?thesis by simp
    qed
  qed
qed

text \<open>
  C6. \<open>gen_calendar\<close> raises its title error exactly when the title is longer than 30
  characters, and then nothing has been drawn and nothing written: the context is
  empty and the world is the one it was given.
\<close>

theorem title_checked_before_drawing:
  "(snd (snd (gen_calendar today start_date title filename years fill_lived w)) = Some TitleTooLong
      \<longleftrightarrow> length title > 30)
   \<and> (length title > 30 \<longrightarrow>
        gen_calendar today start_date title filename years fill_lived w
          = ([], w, Some TitleTooLong))"
proof -
  obtain c w' r where g: "gen_calendar today start_date title filename years fill_lived w
      = (c, w', r)"
    by (cases "gen_calendar today start_date title filename years fill_lived w") auto
  have long: "gen_calendar today start_date title filename years fill_lived w
      = ([], w, Some TitleTooLong)" if "length title > 30"
    using that by (simp add: gen_calendar_def MAX_TITLE_SIZE_def)
  have "length title > 30" if "r = Some TitleTooLong"
    using gen_calendar_error [of today start_date title filename years fill_lived w c w' TitleTooLong]
      g that by (simp add: date_error_def)
  with long g show ?thesis by auto
qed

theorem title_checked_before_drawing_witness:
  "length ''CALENDARIO DELLA VITA DI MARIO'' = 30
   \<and> snd (snd (gen_calendar \<lparr>year = 2024, month = 1, day = 1\<rparr>
         \<lparr>year = 1990, month = 3, day = 15\<rparr> ''CALENDARIO DELLA VITA DI MARIO'' None 1 False
         \<lparr>stdout = [], files = Map.empty\<rparr>)) = None
   \<and> length ''CALENDARIO DELLA VITA DI MARIO!'' = 31
   \<and> gen_calendar \<lparr>year = 2024, month = 1, day = 1\<rparr>
         \<lparr>year = 1990, month = 3, day = 15\<rparr> ''CALENDARIO DELLA VITA DI MARIO!'' None 1 False
         \<lparr>stdout = [], files = Map.empty\<rparr>
       = ([], \<lparr>stdout = [], files = Map.empty\<rparr>, Some TitleTooLong)"
proof -
  have ok: "snd (snd (gen_calendar \<lparr>year = 2024, month = 1, day = 1\<rparr>
         \<lparr>year = 1990, month = 3, day = 15\<rparr> ''CALENDARIO DELLA VITA DI MARIO'' None 1 False
         \<lparr>stdout = [], files = Map.empty\<rparr>)) = None"
    by code_simp
  show ?thesis
    using ok
      title_checked_before_drawing [of "\<lparr>year = 2024, month = 1, day = 1\<rparr>"
        "\<lparr>year = 1990, month = 3, day = 15\<rparr>" "''CALENDARIO DELLA VITA DI MARIO!''" None 1 False
        "\<lparr>stdout = [], files = Map.empty\<rparr>"]
    by simp
qed

section \<open>One state per cell\<close>

text \<open>
  The states of the specification and its palette: three fixed colours for BIRTHDAY,
  NEW_YEAR and LIVED, and white for DEFAULT. The program itself has only the colours.
\<close>

datatype spec_state = LIVED | BIRTHDAY | NEW_YEAR | DEFAULT

fun spec_palette :: "spec_state \<Rightarrow> colour" where
  "spec_palette LIVED = LIVED_COLOUR"
| "spec_palette BIRTHDAY = BIRTHDAY_COLOUR"
| "spec_palette NEW_YEAR = NEWYEAR_COLOUR"
| "spec_palette DEFAULT = WHITE"

lemma spec_palette_inj: "spec_palette a = spec_palette b \<longleftrightarrow> a = b"
  by (cases a; cases b)
     (simp_all add: LIVED_COLOUR_def BIRTHDAY_COLOUR_def NEWYEAR_COLOUR_def WHITE_def)

lemma cell_fill_cases:
  assumes "cell_fill today s d fl = Inr c"
  shows "(fl \<and> is_week_in_past today d = Inr True \<and> c = LIVED_COLOUR)
       \<or> (\<not> (fl \<and> is_week_in_past today d = Inr True)
            \<and> is_current_week d (month s) (day s) = Inr True \<and> c = BIRTHDAY_COLOUR)
       \<or> (\<not> (fl \<and> is_week_in_past today d = Inr True)
            \<and> is_current_week d (month s) (day s) = Inr False
            \<and> is_current_week d 1 1 = Inr True \<and> c = NEWYEAR_COLOUR)
       \<or> (\<not> (fl \<and> is_week_in_past today d = Inr True)
            \<and> is_current_week d (month s) (day s) = Inr False
            \<and> is_current_week d 1 1 = Inr False \<and> c = WHITE)"
proof (cases "fl \<and> is_week_in_past today d = Inr True")
  case True
  with assms show ?thesis by (simp add: cell_fill_def)
next
  case False
  then have nl: "(if fl then is_week_in_past today d else Inr False) \<noteq> Inr True"
    by (simp split: if_splits)
  show ?thesis
  proof (cases "if fl then is_week_in_past today d else Inr False")
    case (Inl e)
    with assms show ?thesis by (simp add: cell_fill_def)
  next
    case (Inr lived)
    with nl have lived: "\<not> lived" by auto
    show ?thesis
    proof (cases "is_current_week d (month s) (day s)")
      case (Inl e)
      with assms Inr lived show ?thesis by (simp add: cell_fill_def)
    next
      case b: (Inr birthday)
      show ?thesis
      proof (cases birthday)
        case True
        with assms Inr lived b False show ?thesis by (simp add: cell_fill_def)
      next
        case nb: False
        show ?thesis
        proof (cases "is_current_week d 1 1")
          case (Inl e)
          with assms Inr lived b nb show ?thesis by (simp add: cell_fill_def)
        next
          case n: (Inr newyear)
          with assms Inr lived b nb False show ?thesis
            by (cases newyear) (simp_all add: cell_fill_def)
        qed
      qed
    qed
  qed
qed

lemma cell_fill_lived:
  assumes "fl" "is_week_in_past today d = Inr True"
  shows "cell_fill today s d fl = Inr LIVED_COLOUR"
  using assms by (simp add: cell_fill_def)

lemma monday_ordinal_pos:
  fixes t :: int
  assumes "1 \<le> t"
  shows "1 \<le> t - (t + 6) mod 7"
proof -
  have "t + 6 = 7 * ((t + 6) div 7) + (t + 6) mod 7" by simp
  moreover have "1 \<le> (t + 6) div 7"
    using assms by (simp add: pos_imp_zdiv_pos_iff)
  ultimately show ?thesis by linarith
qed

lemma is_week_in_past_ok:
  assumes "valid_date today" "valid_date d"
  shows "is_week_in_past today d = Inr (toordinal d < toordinal today - weekday today)"
proof -
  have lo: "1 \<le> toordinal today + (- weekday today)"
    using monday_ordinal_pos [OF toordinal_range(1) [OF assms(1)]] by (simp add: weekday_def)
  have hi: "toordinal today + (- weekday today) \<le> MAXORDINAL"
    using toordinal_range(2) [OF assms(1)] weekday_range [of today] by simp
  from add_days_ok [OF assms(1) lo hi]
  obtain m where m: "add_days today (- weekday today) = Inr m" "valid_date m"
    "toordinal m = toordinal today + (- weekday today)" by blast
  show ?thesis
    using m date_lt_toordinal [OF assms(2) m(2)] by (simp add: is_week_in_past_def)
qed

lemma days_before_year_9999: "days_before_year 9999 = MAXORDINAL - 365"
  by (simp add: days_before_year_def MAXORDINAL_def)

lemma week_end_in_range:
  assumes "valid_date d" "year d < 9999"
  shows "1 \<le> toordinal d + 7" "toordinal d + 7 \<le> MAXORDINAL"
proof -
  show "1 \<le> toordinal d + 7" using toordinal_range(1) [OF assms(1)] by simp
  from assms(1) have v: "1 \<le> month d" "month d \<le> 12" "1 \<le> day d"
    "day d \<le> days_in_month (year d) (month d)" by (simp_all add: valid_date_def)
  have "toordinal d \<le> days_before_year (year d + 1)"
    unfolding toordinal_def by (rule ymd2ord_year_bounds(2) [OF v])
  also have "\<dots> \<le> days_before_year 9999"
    by (rule days_before_year_mono) (use assms(2) in simp)
  finally show "toordinal d + 7 \<le> MAXORDINAL" by (simp add: days_before_year_9999)
qed

text \<open>
  \<open>is_current_week\<close> returns when the week and the year after the cell's year are dates
  and the month and day exist in both years; its answer is then the test on ordinals.
\<close>

lemma is_current_week_ok:
  assumes d: "valid_date d" "year d < 9999"
    and m: "1 \<le> m" "m \<le> 12"
    and dd: "1 \<le> dd" "dd \<le> days_in_month (year d) m" "dd \<le> days_in_month (year d + 1) m"
  shows "is_current_week d m dd =
           Inr ((toordinal d \<le> ymd2ord (year d) m dd \<and> ymd2ord (year d) m dd < toordinal d + 7)
              \<or> (toordinal d \<le> ymd2ord (year d + 1) m dd
                  \<and> ymd2ord (year d + 1) m dd < toordinal d + 7))"
proof -
  from add_days_ok [OF d(1) week_end_in_range [OF d]]
  obtain e where e: "add_days d 7 = Inr e" "valid_date e" "toordinal e = toordinal d + 7"
    by blast
  have y: "1 \<le> year d" "year d \<le> 9999" "1 \<le> year d + 1" "year d + 1 \<le> 9999"
    using d by (simp_all add: valid_date_def MINYEAR_def)
  define d1 where "d1 = \<lparr>year = year d, month = m, day = dd\<rparr>"
  define d2 where "d2 = \<lparr>year = year d + 1, month = m, day = dd\<rparr>"
  have v1: "valid_date d1" and v2: "valid_date d2"
    using y m dd by (simp_all add: d1_def d2_def valid_date_def MINYEAR_def MAXYEAR_def)
  have n1: "new_date (year d) m dd = Inr d1" and n2: "new_date (year d + 1) m dd = Inr d2"
    using y m dd by (simp_all add: d1_def d2_def new_date_def MINYEAR_def MAXYEAR_def)
  have o1: "toordinal d1 = ymd2ord (year d) m dd" and o2: "toordinal d2 = ymd2ord (year d + 1) m dd"
    by (simp_all add: d1_def d2_def toordinal_def)
  show ?thesis
    using e n1 n2 o1 o2
      date_le_toordinal [OF d(1) v1] date_lt_toordinal [OF v1 e(2)]
      date_le_toordinal [OF d(1) v2] date_lt_toordinal [OF v2 e(2)]
    by (simp add: is_current_week_def)
qed

lemma anniversary_exists:
  assumes "valid_date s" "\<not> (month s = 2 \<and> day s = 29)"
  shows "day s \<le> days_in_month y (month s)"
proof -
  from assms(1) have v: "1 \<le> month s" "month s \<le> 12"
    "day s \<le> days_in_month (year s) (month s)" by (simp_all add: valid_date_def)
  show ?thesis
    using month_cases [OF v(1,2)] v(3) assms(2)
    by (elim disjE) (auto simp: days_in_month_def DAYS_IN_MONTH_def split: if_splits)
qed

lemma january_first: "(1::int) \<le> days_in_month y 1"
  by (simp add: days_in_month_def DAYS_IN_MONTH_def)

text \<open>
  The reference classification of the specification, in its words: LIVED when
  \<open>fill_lived\<close> is on and the cell's date is strictly before the Monday of the current
  week; otherwise BIRTHDAY when the half-open span of one week from the cell's date
  contains the date with the birth date's month and day in the cell's year or in the
  next; otherwise NEW_YEAR when that span contains 1 January of one of the two years;
  otherwise DEFAULT. Days are counted by their ordinals, and a date that the calendar
  does not have, 29 February of a common year, is in no span.
\<close>

definition span_contains :: "date \<Rightarrow> int \<Rightarrow> int \<Rightarrow> int \<Rightarrow> bool" where
  "span_contains d y m dd \<longleftrightarrow>
     1 \<le> m \<and> m \<le> 12 \<and> 1 \<le> dd \<and> dd \<le> days_in_month y m
     \<and> toordinal d \<le> ymd2ord y m dd \<and> ymd2ord y m dd < toordinal d + 7"

definition spec_classify :: "date \<Rightarrow> bool \<Rightarrow> date \<Rightarrow> date \<Rightarrow> spec_state" where
  "spec_classify today fill_lived b d =
     (if fill_lived \<and> toordinal d < toordinal today - weekday today then LIVED
      else if span_contains d (year d) (month b) (day b)
              \<or> span_contains d (year d + 1) (month b) (day b) then BIRTHDAY
      else if span_contains d (year d) 1 1 \<or> span_contains d (year d + 1) 1 1 then NEW_YEAR
      else DEFAULT)"

text \<open>
  Handed a start date other than 29 February and a cell before the year 9999, the
  classifier of the program returns, and returns the colour of the reference
  classification of that start date.
\<close>

lemma cell_fill_refines:
  assumes "valid_date today" "valid_date s" "\<not> (month s = 2 \<and> day s = 29)"
    "valid_date d" "year d < 9999"
  shows "cell_fill today s d fl = Inr (spec_palette (spec_classify today fl s d))"
proof -
  from assms(2) have v: "1 \<le> month s" "month s \<le> 12" "1 \<le> day s"
    by (simp_all add: valid_date_def)
  note a = anniversary_exists [OF assms(2,3)]
  note b = is_current_week_ok [OF assms(4,5) v a a]
  have n: "is_current_week d 1 1 =
           Inr ((toordinal d \<le> ymd2ord (year d) 1 1 \<and> ymd2ord (year d) 1 1 < toordinal d + 7)
              \<or> (toordinal d \<le> ymd2ord (year d + 1) 1 1
                  \<and> ymd2ord (year d + 1) 1 1 < toordinal d + 7))"
    by (rule is_current_week_ok [OF assms(4,5) _ _ _ january_first january_first]) simp_all
  have sb: "span_contains d y (month s) (day s) \<longleftrightarrow>
      toordinal d \<le> ymd2ord y (month s) (day s) \<and> ymd2ord y (month s) (day s) < toordinal d + 7"
    for y using v a [of y] by (simp add: span_contains_def)
  have sn: "span_contains d y 1 1 \<longleftrightarrow>
      toordinal d \<le> ymd2ord y 1 1 \<and> ymd2ord y 1 1 < toordinal d + 7"
    for y using january_first [of y] by (simp add: span_contains_def)
  define P where "P \<longleftrightarrow> toordinal d < toordinal today - weekday today"
  define B where "B \<longleftrightarrow> span_contains d (year d) (month s) (day s)
      \<or> span_contains d (year d + 1) (month s) (day s)"
  define N where "N \<longleftrightarrow> span_contains d (year d) 1 1 \<or> span_contains d (year d + 1) 1 1"
  have p': "is_week_in_past today d = Inr P"
    unfolding P_def by (rule is_week_in_past_ok [OF assms(1,4)])
  have b': "is_current_week d (month s) (day s) = Inr B" unfolding B_def sb by (rule b)
  have n': "is_current_week d 1 1 = Inr N" unfolding N_def sn by (rule n)
  have c: "spec_classify today fl s d =
      (if fl \<and> P then LIVED else if B then BIRTHDAY else if N then NEW_YEAR else DEFAULT)"
    by (simp add: spec_classify_def P_def B_def N_def)
  show ?thesis
    unfolding cell_fill_def p' b' n' c
    by (cases fl; cases P; cases B; cases N) simp_all
qed

text \<open>
  C3, as the code has it. For a cell before the year 9999 and a start date other than
  29 February the classifier returns a fill, and a fill that it returns is the colour
  of exactly one of the four states: the first of LIVED, BIRTHDAY and NEW_YEAR whose
  condition holds, and DEFAULT when none does. With \<open>fill_lived\<close> on, a week in the past
  is LIVED whatever else it is, the week of the anniversary included.
\<close>

theorem one_state_first_match:
  "(valid_date today \<and> valid_date s \<and> \<not> (month s = 2 \<and> day s = 29)
      \<and> valid_date d \<and> year d < 9999 \<longrightarrow>
        (\<exists>!st. cell_fill today s d fl = Inr (spec_palette st)))
   \<and> (\<forall>c. cell_fill today s d fl = Inr c \<longrightarrow>
      (\<exists>!st. c = spec_palette st)
      \<and> (c = spec_palette LIVED \<longleftrightarrow> fl \<and> is_week_in_past today d = Inr True)
      \<and> (c = spec_palette BIRTHDAY \<longleftrightarrow>
            \<not> (fl \<and> is_week_in_past today d = Inr True)
            \<and> is_current_week d (month s) (day s) = Inr True)
      \<and> (c = spec_palette NEW_YEAR \<longleftrightarrow>
            \<not> (fl \<and> is_week_in_past today d = Inr True)
            \<and> is_current_week d (month s) (day s) = Inr False
            \<and> is_current_week d 1 1 = Inr True)
      \<and> (c = spec_palette DEFAULT \<longleftrightarrow>
            \<not> (fl \<and> is_week_in_past today d = Inr True)
            \<and> is_current_week d (month s) (day s) = Inr False
            \<and> is_current_week d 1 1 = Inr False))
   \<and> (fl \<and> is_week_in_past today d = Inr True \<longrightarrow>
        cell_fill today s d fl = Inr (spec_palette LIVED)
        \<and> cell_fill today s d fl \<noteq> Inr (spec_palette BIRTHDAY))"
proof (intro conjI allI impI)
  assume a: "valid_date today \<and> valid_date s \<and> \<not> (month s = 2 \<and> day s = 29)
      \<and> valid_date d \<and> year d < 9999"
  then have "cell_fill today s d fl = Inr (spec_palette (spec_classify today fl s d))"
    by (intro cell_fill_refines) simp_all
  then show "\<exists>!st. cell_fill today s d fl = Inr (spec_palette st)"
    using spec_palette_inj by auto
next
  fix c
  assume r: "cell_fill today s d fl = Inr c"
  from cell_fill_cases [OF r]
  have "c = spec_palette LIVED \<or> c = spec_palette BIRTHDAY \<or> c = spec_palette NEW_YEAR
      \<or> c = spec_palette DEFAULT" by auto
  then show "\<exists>!st. c = spec_palette st" using spec_palette_inj by metis
  show "c = spec_palette LIVED \<longleftrightarrow> fl \<and> is_week_in_past today d = Inr True"
    using cell_fill_cases [OF r]
    by (auto simp: LIVED_COLOUR_def BIRTHDAY_COLOUR_def NEWYEAR_COLOUR_def WHITE_def)
  show "c = spec_palette BIRTHDAY \<longleftrightarrow>
          \<not> (fl \<and> is_week_in_past today d = Inr True)
          \<and> is_current_week d (month s) (day s) = Inr True"
    using cell_fill_cases [OF r]
    by (auto simp: LIVED_COLOUR_def BIRTHDAY_COLOUR_def NEWYEAR_COLOUR_def WHITE_def)
  show "c = spec_palette NEW_YEAR \<longleftrightarrow>
          \<not> (fl \<and> is_week_in_past today d = Inr True)
          \<and> is_current_week d (month s) (day s) = Inr False
          \<and> is_current_week d 1 1 = Inr True"
    using cell_fill_cases [OF r]
    by (auto simp: LIVED_COLOUR_def BIRTHDAY_COLOUR_def NEWYEAR_COLOUR_def WHITE_def)
  show "c = spec_palette DEFAULT \<longleftrightarrow>
          \<not> (fl \<and> is_week_in_past today d = Inr True)
          \<and> is_current_week d (month s) (day s) = Inr False
          \<and> is_current_week d 1 1 = Inr False"
    using cell_fill_cases [OF r]
    by (auto simp: LIVED_COLOUR_def BIRTHDAY_COLOUR_def NEWYEAR_COLOUR_def WHITE_def)
next
  assume a: "fl \<and> is_week_in_past today d = Inr True"
  then show "cell_fill today s d fl = Inr (spec_palette LIVED)"
    by (simp add: cell_fill_lived)
  from a show "cell_fill today s d fl \<noteq> Inr (spec_palette BIRTHDAY)"
    by (simp add: cell_fill_lived LIVED_COLOUR_def BIRTHDAY_COLOUR_def)
qed

text \<open>
  The witness is the Monday 12 March 2001, an anniversary of the Monday 12 March 1990,
  seen from 1 January 2024: its week is the week of the anniversary, and it is LIVED.
\<close>

theorem one_state_first_match_witness:
  "valid_date \<lparr>year = 2024, month = 1, day = 1\<rparr> \<and> valid_date \<lparr>year = 1990, month = 3, day = 12\<rparr>
   \<and> valid_date \<lparr>year = 2001, month = 3, day = 12\<rparr>
   \<and> (\<exists>!st. cell_fill \<lparr>year = 2024, month = 1, day = 1\<rparr> \<lparr>year = 1990, month = 3, day = 12\<rparr>
        \<lparr>year = 2001, month = 3, day = 12\<rparr> True = Inr (spec_palette st))
   \<and> is_week_in_past \<lparr>year = 2024, month = 1, day = 1\<rparr> \<lparr>year = 2001, month = 3, day = 12\<rparr> = Inr True
   \<and> is_current_week \<lparr>year = 2001, month = 3, day = 12\<rparr> 3 12 = Inr True
   \<and> weekday \<lparr>year = 2001, month = 3, day = 12\<rparr> = 0
   \<and> cell_fill \<lparr>year = 2024, month = 1, day = 1\<rparr> \<lparr>year = 1990, month = 3, day = 12\<rparr>
        \<lparr>year = 2001, month = 3, day = 12\<rparr> True = Inr (spec_palette LIVED)
   \<and> cell_fill \<lparr>year = 2024, month = 1, day = 1\<rparr> \<lparr>year = 1990, month = 3, day = 12\<rparr>
        \<lparr>year = 2001, month = 3, day = 12\<rparr> True \<noteq> Inr (spec_palette BIRTHDAY)
   \<and> cell_fill \<lparr>year = 2024, month = 1, day = 1\<rparr> \<lparr>year = 1990, month = 3, day = 12\<rparr>
        \<lparr>year = 2001, month = 3, day = 12\<rparr> False = Inr (spec_palette BIRTHDAY)"
proof -
  have v: "valid_date \<lparr>year = 2024, month = 1, day = 1\<rparr>"
    "valid_date \<lparr>year = 1990, month = 3, day = 12\<rparr>"
    "valid_date \<lparr>year = 2001, month = 3, day = 12\<rparr>"
    by (simp_all add: valid_date_def MINYEAR_def MAXYEAR_def days_in_month_def DAYS_IN_MONTH_def)
  have p: "is_week_in_past \<lparr>year = 2024, month = 1, day = 1\<rparr>
      \<lparr>year = 2001, month = 3, day = 12\<rparr> = Inr True" by code_simp
  have b: "is_current_week \<lparr>year = 2001, month = 3, day = 12\<rparr> 3 12 = Inr True" by code_simp
  have w: "weekday \<lparr>year = 2001, month = 3, day = 12\<rparr> = 0" by code_simp
  have f: "cell_fill \<lparr>year = 2024, month = 1, day = 1\<rparr> \<lparr>year = 1990, month = 3, day = 12\<rparr>
        \<lparr>year = 2001, month = 3, day = 12\<rparr> False = Inr BIRTHDAY_COLOUR" by code_simp
  note inst = one_state_first_match [where today = "\<lparr>year = 2024, month = 1, day = 1\<rparr>"
        and s = "\<lparr>year = 1990, month = 3, day = 12\<rparr>"
        and d = "\<lparr>year = 2001, month = 3, day = 12\<rparr>" and fl = True]
  have u: "\<exists>!st. cell_fill \<lparr>year = 2024, month = 1, day = 1\<rparr> \<lparr>year = 1990, month = 3, day = 12\<rparr>
        \<lparr>year = 2001, month = 3, day = 12\<rparr> True = Inr (spec_palette st)"
    using inst v by simp
  have l: "cell_fill \<lparr>year = 2024, month = 1, day = 1\<rparr> \<lparr>year = 1990, month = 3, day = 12\<rparr>
        \<lparr>year = 2001, month = 3, day = 12\<rparr> True = Inr (spec_palette LIVED)
      \<and> cell_fill \<lparr>year = 2024, month = 1, day = 1\<rparr> \<lparr>year = 1990, month = 3, day = 12\<rparr>
        \<lparr>year = 2001, month = 3, day = 12\<rparr> True \<noteq> Inr (spec_palette BIRTHDAY)"
    using p inst by blast
  have f': "cell_fill \<lparr>year = 2024, month = 1, day = 1\<rparr> \<lparr>year = 1990, month = 3, day = 12\<rparr>
        \<lparr>year = 2001, month = 3, day = 12\<rparr> False = Inr (spec_palette BIRTHDAY)"
    using f by simp
  from v u p b w l f' show ?thesis by blast
qed

text \<open>
  Without the two conditions there are cells with no state, where the classifier
  raises. The date type ends with the year 9999: the start date 27 December 9999 is a
  Monday, and the week of its first cell has no end. And a start date that is backed
  up to 29 February has no anniversary in the next year: 1 March 2016 is a Tuesday.
\<close>

theorem no_state_selected_counterexample:
  "parse_date ''27/12/9999'' = Inr \<lparr>year = 9999, month = 12, day = 27\<rparr>
   \<and> back_to_monday \<lparr>year = 9999, month = 12, day = 27\<rparr> = Inr \<lparr>year = 9999, month = 12, day = 27\<rparr>
   \<and> cell_fill \<lparr>year = 2024, month = 1, day = 1\<rparr> \<lparr>year = 9999, month = 12, day = 27\<rparr>
        \<lparr>year = 9999, month = 12, day = 27\<rparr> False = Inl DateOverflow
   \<and> parse_date ''01/03/2016'' = Inr \<lparr>year = 2016, month = 3, day = 1\<rparr>
   \<and> back_to_monday \<lparr>year = 2016, month = 3, day = 1\<rparr> = Inr \<lparr>year = 2016, month = 2, day = 29\<rparr>
   \<and> cell_fill \<lparr>year = 2024, month = 1, day = 1\<rparr> \<lparr>year = 2016, month = 2, day = 29\<rparr>
        \<lparr>year = 2016, month = 2, day = 29\<rparr> False = Inl FieldOutOfRange"
  by code_simp

section \<open>A start date of 29 February\<close>

lemma not_two_leap_years: "\<not> (is_leap y \<and> is_leap (y + 1))"
proof
  assume "is_leap y \<and> is_leap (y + 1)"
  then have a: "y mod 4 = 0" and b: "(y + 1) mod 4 = 0" by (simp_all add: is_leap_def)
  from a have "(y + 1) mod 4 = 1 mod 4" by (metis mod_add_left_eq add_0)
  with b show False by simp
qed

lemma new_date_feb29: "new_date y 2 29 = Inr dt \<Longrightarrow> is_leap y"
  by (auto simp: new_date_def days_in_month_def DAYS_IN_MONTH_def split: if_splits)

lemma is_current_week_feb29: "\<exists>e. is_current_week now 2 29 = Inl e"
proof (cases "add_days now 7")
  case (Inl e)
  then show ?thesis by (simp add: is_current_week_def)
next
  case e: (Inr end')
  show ?thesis
  proof (cases "new_date (year now) 2 29")
    case (Inl e')
    with e show ?thesis by (simp add: is_current_week_def)
  next
    case d1: (Inr date1)
    show ?thesis
    proof (cases "new_date (year now + 1) 2 29")
      case (Inl e')
      with e d1 show ?thesis by (simp add: is_current_week_def)
    next
      case (Inr date2)
      from new_date_feb29 [OF d1] new_date_feb29 [OF Inr] not_two_leap_years [of "year now"]
      show ?thesis by simp
    qed
  qed
qed

lemma cell_fill_feb29:
  assumes "month s = 2" and "day s = 29"
    and "\<not> (fl \<and> is_week_in_past today d = Inr True)"
  shows "\<exists>e. cell_fill today s d fl = Inl e"
proof (cases "if fl then is_week_in_past today d else Inr False")
  case (Inl e)
  then show ?thesis by (simp add: cell_fill_def)
next
  case (Inr lived)
  with assms(3) have "\<not> lived" by (auto split: if_splits)
  moreover obtain e where "is_current_week d 2 29 = Inl e"
    using is_current_week_feb29 by blast
  ultimately show ?thesis using Inr assms(1,2) by (simp add: cell_fill_def)
qed

lemma render_aborts_on_feb29_start:
  assumes anchor: "back_to_monday b = Inr s" and feb: "month s = 2" "day s = 29"
    and years: "1 \<le> years"
  shows "\<exists>ctx e. gen_calendar today b title filename years False w = (ctx, w, Some e)"
proof (cases "length title > MAX_TITLE_SIZE")
  case True
  then show ?thesis by (simp add: gen_calendar_def)
next
  case False
  obtain e where e: "cell_fill today s s False = Inl e"
    using cell_fill_feb29 [OF feb, of False today s] by auto
  obtain k where k: "nat years = Suc k" using years by (cases "nat years") auto
  have cols: "NUM_COLUMNS = Suc 51" by (simp add: NUM_COLUMNS_def)
  have row: "draw_row today ctx s s False = (ctx, Some e)" for ctx
    by (simp only: draw_row_def cols draw_row_loop.simps e sum.case)
  have "\<exists>ctx. draw_grid today ctx0 s years False = (ctx, Some e)" for ctx0
    by (simp add: draw_grid_def Let_def k row)
  then obtain ctx where
    "draw_grid today [Fill_page, Show_text (Title title)] s years False = (ctx, Some e)"
    by blast
  with False anchor show ?thesis by (simp add: gen_calendar_def Let_def)
qed

text \<open>
  C10, as the code has it. The classifier gets the month and the day of \<open>start_date\<close>,
  which is the Monday that \<open>gen_calendar\<close> backed up to, not the birth date. When that
  Monday is 29 February, every cell whose fill is not decided by the lived test
  raises: one of the two anniversaries \<open>datetime(year, 2, 29)\<close> and
  \<open>datetime(year + 1, 2, 29)\<close> does not exist. With \<open>fill_lived\<close> off the first cell
  of the first row raises, and \<open>gen_calendar\<close> ends with the exception and writes no
  document.
\<close>

theorem classifier_raises_on_feb29_start:
  "(month s = 2 \<and> day s = 29 \<and> \<not> (fl \<and> is_week_in_past today d = Inr True) \<longrightarrow>
      (\<exists>e. cell_fill today s d fl = Inl e))
   \<and> (back_to_monday b = Inr s \<and> month s = 2 \<and> day s = 29 \<and> 1 \<le> years \<longrightarrow>
      (\<exists>ctx e. gen_calendar today b title filename years False w = (ctx, w, Some e)))"
  using cell_fill_feb29 [of s fl today d]
    render_aborts_on_feb29_start [of b s years today title filename w]
  by blast

theorem classifier_raises_on_feb29_start_witness:
  "parse_date ''29/02/2016'' = Inr \<lparr>year = 2016, month = 2, day = 29\<rparr>
   \<and> back_to_monday \<lparr>year = 2016, month = 2, day = 29\<rparr> = Inr \<lparr>year = 2016, month = 2, day = 29\<rparr>
   \<and> month \<lparr>year = 2016, month = 2, day = 29\<rparr> = 2 \<and> day \<lparr>year = 2016, month = 2, day = 29\<rparr> = 29
   \<and> (\<exists>e. cell_fill \<lparr>year = 2024, month = 1, day = 1\<rparr> \<lparr>year = 2016, month = 2, day = 29\<rparr>
          \<lparr>year = 2017, month = 2, day = 27\<rparr> False = Inl e)
   \<and> (1::int) \<le> 80
   \<and> (\<exists>ctx e. gen_calendar \<lparr>year = 2024, month = 1, day = 1\<rparr> \<lparr>year = 2016, month = 2, day = 29\<rparr>
          ''CALENDARIO DELLA VITA'' None 80 False \<lparr>stdout = [], files = Map.empty\<rparr>
        = (ctx, \<lparr>stdout = [], files = Map.empty\<rparr>, Some e))"
proof -
  have p: "parse_date ''29/02/2016'' = Inr \<lparr>year = 2016, month = 2, day = 29\<rparr>" by code_simp
  have b: "back_to_monday \<lparr>year = 2016, month = 2, day = 29\<rparr>
      = Inr \<lparr>year = 2016, month = 2, day = 29\<rparr>" by code_simp
  have c: "\<exists>e. cell_fill \<lparr>year = 2024, month = 1, day = 1\<rparr> \<lparr>year = 2016, month = 2, day = 29\<rparr>
          \<lparr>year = 2017, month = 2, day = 27\<rparr> False = Inl e"
    using classifier_raises_on_feb29_start [where s = "\<lparr>year = 2016, month = 2, day = 29\<rparr>"
        and fl = False and today = "\<lparr>year = 2024, month = 1, day = 1\<rparr>"
        and d = "\<lparr>year = 2017, month = 2, day = 27\<rparr>"]
    by simp
  have g: "\<exists>ctx e. gen_calendar \<lparr>year = 2024, month = 1, day = 1\<rparr>
          \<lparr>year = 2016, month = 2, day = 29\<rparr>
          ''CALENDARIO DELLA VITA'' None 80 False \<lparr>stdout = [], files = Map.empty\<rparr>
        = (ctx, \<lparr>stdout = [], files = Map.empty\<rparr>, Some e)"
    using b classifier_raises_on_feb29_start [where s = "\<lparr>year = 2016, month = 2, day = 29\<rparr>"
        and b = "\<lparr>year = 2016, month = 2, day = 29\<rparr>" and years = 80
        and today = "\<lparr>year = 2024, month = 1, day = 1\<rparr>"
        and title = "''CALENDARIO DELLA VITA''" and filename = None
        and w = "\<lparr>stdout = [], files = Map.empty\<rparr>"]
    by simp
  from p b c g show ?thesis by simp
qed

text \<open>
  Not every birth date of 29 February raises, and a start date of 29 February does
  not raise for every cell. A birth date of 29 February that is
  not a Monday never reaches the classifier: 29 February 2000, a Tuesday, is backed up
  to 28 February, and its cells are classified without an exception, those of the
  common year 2001 included. And with \<open>fill_lived\<close> on, a past week is LIVED even when
  the start date is 29 February.
\<close>

theorem feb29_birth_date_counterexample:
  "parse_date ''29/02/2000'' = Inr \<lparr>year = 2000, month = 2, day = 29\<rparr>
   \<and> back_to_monday \<lparr>year = 2000, month = 2, day = 29\<rparr> = Inr \<lparr>year = 2000, month = 2, day = 28\<rparr>
   \<and> \<not> is_leap 2001
   \<and> cell_fill \<lparr>year = 2024, month = 1, day = 1\<rparr> \<lparr>year = 2000, month = 2, day = 28\<rparr>
        \<lparr>year = 2001, month = 2, day = 26\<rparr> False = Inr BIRTHDAY_COLOUR
   \<and> cell_fill \<lparr>year = 2024, month = 1, day = 1\<rparr> \<lparr>year = 2016, month = 2, day = 29\<rparr>
        \<lparr>year = 2017, month = 2, day = 27\<rparr> True = Inr LIVED_COLOUR"
  by code_simp

section \<open>Rows and squares of a run\<close>

text \<open>Counting what a context holds: the labels of the rows and the squares.\<close>

fun is_row_label :: "draw_op \<Rightarrow> bool" where
  "is_row_label (Show_text (DateLabel d)) = True"
| "is_row_label _ = False"

fun is_square :: "draw_op \<Rightarrow> bool" where
  "is_square (Draw_square c) = True"
| "is_square _ = False"

definition rows :: "canvas \<Rightarrow> nat" where
  "rows ctx = length (filter is_row_label ctx)"

definition squares :: "canvas \<Rightarrow> nat" where
  "squares ctx = length (filter is_square ctx)"

lemma rows_append: "rows (a @ b) = rows a + rows b"
  by (simp add: rows_def)

lemma squares_append: "squares (a @ b) = squares a + squares b"
  by (simp add: squares_def)

lemma draw_row_loop_counts:
  assumes "draw_row_loop k today ctx s d fl = (ctx', r)"
  shows "rows ctx' = rows ctx \<and> squares ctx' \<le> squares ctx + k
       \<and> (r = None \<longrightarrow> squares ctx' = squares ctx + k)"
  using assms
proof (induction k arbitrary: ctx d)
  case 0
  then show ?case by simp
next
  case (Suc k)
  show ?case
  proof (cases "cell_fill today s d fl")
    case (Inl e)
    with Suc.prems show ?thesis by auto
  next
    case (Inr fill)
    have sq: "rows (draw_square ctx fill) = rows ctx"
      "squares (draw_square ctx fill) = squares ctx + 1"
      by (simp_all add: draw_square_def rows_def squares_def)
    show ?thesis
    proof (cases "add_days d 7")
      case (Inl e)
      with Inr Suc.prems sq show ?thesis by auto
    next
      case d': (Inr d')
      with Inr Suc.prems have "draw_row_loop k today (draw_square ctx fill) s d' fl = (ctx', r)"
        by simp
      from Suc.IH [OF this] sq show ?thesis by simp
    qed
  qed
qed

lemma draw_grid_loop_counts:
  assumes "draw_grid_loop k today ctx s d fl = (ctx', r)"
  shows "rows ctx' \<le> rows ctx + k
       \<and> (r = None \<longrightarrow> rows ctx' = rows ctx + k \<and> squares ctx' = squares ctx + 52 * k)"
  using assms
proof (induction k arbitrary: ctx d)
  case 0
  then show ?case by simp
next
  case (Suc k)
  let ?c = "ctx @ [Show_text (DateLabel d)]"
  have lab: "rows ?c = rows ctx + 1" "squares ?c = squares ctx"
    by (simp_all add: rows_def squares_def)
  obtain c1 r1 where row: "draw_row today ?c s d fl = (c1, r1)"
    by (cases "draw_row today ?c s d fl")
  from draw_row_loop_counts [of NUM_COLUMNS today ?c s d fl c1 r1] row
  have c1: "rows c1 = rows ?c" "r1 = None \<longrightarrow> squares c1 = squares ?c + 52"
    by (simp_all add: draw_row_def NUM_COLUMNS_def)
  show ?case
  proof (cases r1)
    case (Some e)
    with row Suc.prems c1 lab show ?thesis by auto
  next
    case None
    show ?thesis
    proof (cases "add_days d (7 * 52)")
      case (Inl e)
      with row None Suc.prems c1 lab show ?thesis by auto
    next
      case (Inr d')
      with row None Suc.prems have "draw_grid_loop k today c1 s d' fl = (ctx', r)" by simp
      from Suc.IH [OF this] c1 lab None show ?thesis by simp
    qed
  qed
qed

lemma draw_grid_counts:
  assumes "draw_grid today ctx d years fl = (ctx', r)"
  shows "rows ctx' \<le> rows ctx + nat years
       \<and> (r = None \<longrightarrow> rows ctx' = rows ctx + nat years
                        \<and> squares ctx' = squares ctx + 3 + 52 * nat years)"
proof -
  define hd where "hd = [Draw_square BIRTHDAY_COLOUR, Show_text (Legend ''Week of your birthday''),
      Draw_square NEWYEAR_COLOUR, Show_text (Legend ''First week of the new year''),
      Draw_square LIVED_COLOUR, Show_text (Legend ''Weeks lived'')]
      @ map (\<lambda>i. Show_text (WeekNumber (i + 1))) [0..<NUM_COLUMNS]"
  have "filter is_row_label (map (\<lambda>i. Show_text (WeekNumber (i + 1))) xs) = []"
    "filter is_square (map (\<lambda>i. Show_text (WeekNumber (i + 1))) xs) = []" for xs :: "nat list"
    by (induction xs) simp_all
  then have h: "rows hd = 0" "squares hd = 3"
    by (simp_all add: hd_def rows_def squares_def)
  have g: "draw_grid today ctx d years fl = draw_grid_loop (nat years) today (ctx @ hd) d d fl"
    by (simp add: draw_grid_def Let_def draw_key_item_def draw_square_def hd_def)
  from draw_grid_loop_counts [of "nat years" today "ctx @ hd" d d fl ctx' r] assms g h
  show ?thesis by (simp add: rows_append squares_append)
qed

lemma year_lt_of_ordinal:
  assumes "valid_date x" "toordinal x \<le> days_before_year Y"
  shows "year x < Y"
proof (rule ccontr)
  assume "\<not> year x < Y"
  then have "days_before_year Y \<le> days_before_year (year x)"
    by (intro days_before_year_mono) simp
  moreover from assms(1) have "days_before_year (year x) < toordinal x"
    unfolding toordinal_def by (intro ymd2ord_year_bounds(1)) (simp_all add: valid_date_def)
  ultimately show False using assms(2) by simp
qed

lemma draw_row_loop_succeeds:
  assumes "valid_date today" "valid_date s" "\<not> (month s = 2 \<and> day s = 29)"
    and "valid_date d" "toordinal d + 7 * int k \<le> days_before_year 9999"
  shows "snd (draw_row_loop k today ctx s d fl) = None"
  using assms(4,5)
proof (induction k arbitrary: ctx d)
  case 0
  then show ?case by simp
next
  case (Suc k)
  have ord: "toordinal d + 7 \<le> days_before_year 9999" using Suc.prems(2) by simp
  then have "toordinal d \<le> days_before_year 9999" by simp
  from year_lt_of_ordinal [OF Suc.prems(1) this] have y: "year d < 9999" .
  from cell_fill_refines [OF assms(1-3) Suc.prems(1) y, of fl]
  obtain fill where fill: "cell_fill today s d fl = Inr fill" by blast
  have "1 \<le> toordinal d + 7" using toordinal_range(1) [OF Suc.prems(1)] by simp
  moreover have "toordinal d + 7 \<le> MAXORDINAL" using ord by (simp add: days_before_year_9999)
  ultimately obtain d' where d': "add_days d 7 = Inr d'" "valid_date d'"
    "toordinal d' = toordinal d + 7"
    using add_days_ok [OF Suc.prems(1), of 7] by blast
  have "toordinal d' + 7 * int k \<le> days_before_year 9999" using d'(3) Suc.prems(2) by simp
  from Suc.IH [OF d'(2) this] fill d'(1) show ?case by simp
qed

lemma draw_grid_loop_succeeds:
  assumes "valid_date today" "valid_date s" "\<not> (month s = 2 \<and> day s = 29)"
    and "valid_date d" "toordinal d + 364 * int k \<le> days_before_year 9999"
  shows "snd (draw_grid_loop k today ctx s d fl) = None"
  using assms(4,5)
proof (induction k arbitrary: ctx d)
  case 0
  then show ?case by simp
next
  case (Suc k)
  let ?c = "ctx @ [Show_text (DateLabel d)]"
  have ord: "toordinal d + 364 \<le> days_before_year 9999" using Suc.prems(2) by simp
  have "toordinal d + 7 * int NUM_COLUMNS \<le> days_before_year 9999"
    using ord by (simp add: NUM_COLUMNS_def)
  from draw_row_loop_succeeds [OF assms(1-3) Suc.prems(1) this, of ?c fl]
  obtain c1 where row: "draw_row today ?c s d fl = (c1, None)"
    by (cases "draw_row today ?c s d fl") (simp add: draw_row_def)
  have "1 \<le> toordinal d + 7 * 52" using toordinal_range(1) [OF Suc.prems(1)] by simp
  moreover have "toordinal d + 7 * 52 \<le> MAXORDINAL"
    using ord by (simp add: days_before_year_9999)
  ultimately obtain d' where d': "add_days d (7 * 52) = Inr d'" "valid_date d'"
    "toordinal d' = toordinal d + 7 * 52"
    using add_days_ok [OF Suc.prems(1), of "7 * 52"] by blast
  have "toordinal d' + 364 * int k \<le> days_before_year 9999" using d'(3) Suc.prems(2) by simp
  from Suc.IH [OF d'(2) this] row d'(1) show ?case by simp
qed

lemma draw_grid_succeeds:
  assumes "valid_date today" "valid_date d" "\<not> (month d = 2 \<and> day d = 29)"
    and "toordinal d + 364 * years \<le> days_before_year 9999" "0 \<le> years"
  shows "snd (draw_grid today ctx d years fl) = None"
proof -
  have "toordinal d + 364 * int (nat years) \<le> days_before_year 9999" using assms(4,5) by simp
  from draw_grid_loop_succeeds [OF assms(1,2,3,2) this] show ?thesis
    by (simp add: draw_grid_def Let_def)
qed

lemma parse_date_valid: "parse_date str = Inr b \<Longrightarrow> valid_date b"
  by (auto simp: parse_date_def Let_def strptime_def new_date_Inr
      split: sum.splits list.splits prod.splits if_splits)

lemma days_before_year_9901: "days_before_year 9901 + 364 * 88 \<le> days_before_year 9999"
  by (simp add: days_before_year_def)

text \<open>
  A run completes when the locale is installed, the start date is in or before the year
  9900 and is not backed up to 29 February, and the title passes: the document goes to
  standard output.
\<close>

lemma gen_calendar_succeeds:
  assumes "valid_date today" "valid_date b" "year b \<le> 9900"
    and "back_to_monday b = Inr s" "\<not> (month s = 2 \<and> day s = 29)"
    and "length title \<le> 30" "0 \<le> years" "years \<le> 88"
  shows "\<exists>ctx. gen_calendar today b title filename years fl w
           = (ctx, w\<lparr>stdout := stdout w @ [Document ctx]\<rparr>, None)"
proof -
  from back_to_monday_ok [OF assms(2)] assms(4)
  have s: "valid_date s" "toordinal s = toordinal b - weekday b" by auto
  from assms(2) have v: "1 \<le> month b" "month b \<le> 12" "1 \<le> day b"
    "day b \<le> days_in_month (year b) (month b)" by (simp_all add: valid_date_def)
  have "toordinal s \<le> toordinal b" using s(2) weekday_range [of b] by simp
  also have "\<dots> \<le> days_before_year (year b + 1)"
    unfolding toordinal_def by (rule ymd2ord_year_bounds(2) [OF v])
  also have "\<dots> \<le> days_before_year 9901"
    by (rule days_before_year_mono) (use assms(3) in simp)
  finally have "toordinal s + 364 * years \<le> days_before_year 9901 + 364 * 88"
    using assms(8) by simp
  then have ord: "toordinal s + 364 * years \<le> days_before_year 9999"
    using days_before_year_9901 by simp
  let ?c0 = "[Fill_page, Show_text (Title title)]"
  from draw_grid_succeeds [OF assms(1) s(1) assms(5) ord assms(7), of ?c0 fl]
  obtain c where "draw_grid today ?c0 s years fl = (c, None)"
    by (cases "draw_grid today ?c0 s years fl") simp
  then show ?thesis
    unfolding gen_calendar_draws_grid [OF assms(6,4)] by simp
qed

lemma gen_calendar_counts:
  assumes "gen_calendar today b title filename years fl w = (ctx, w', None)"
  shows "w' = w\<lparr>stdout := stdout w @ [Document ctx]\<rparr>
       \<and> rows ctx = nat years \<and> squares ctx = 3 + 52 * nat years"
proof -
  from assms have short: "length title \<le> 30"
    by (auto simp: gen_calendar_def MAX_TITLE_SIZE_def split: if_splits)
  from assms short obtain s where s: "back_to_monday b = Inr s"
    by (cases "back_to_monday b") (auto simp: gen_calendar_def MAX_TITLE_SIZE_def Let_def)
  let ?c0 = "[Fill_page, Show_text (Title title)]"
  obtain c r where g: "draw_grid today ?c0 s years fl = (c, r)"
    by (cases "draw_grid today ?c0 s years fl")
  from assms have r: "r = None" and ctx: "ctx = c @ [Show_page]"
    and w': "w' = w\<lparr>stdout := stdout w @ [Document (c @ [Show_page])]\<rparr>"
    unfolding gen_calendar_draws_grid [OF short s] g by (cases r; simp)+
  from draw_grid_counts [OF g] r
  have "rows c = rows ?c0 + nat years" "squares c = squares ?c0 + 3 + 52 * nat years"
    by simp_all
  then show ?thesis using ctx w' by (simp add: rows_def squares_def)
qed

section \<open>The run as a whole\<close>

lemma gen_calendar_error_world:
  assumes "gen_calendar today b title filename years fl w = (ctx, w', Some e)"
  shows "w' = w"
proof (cases "length title > MAX_TITLE_SIZE")
  case True
  with assms show ?thesis by (simp add: gen_calendar_def)
next
  case short: False
  show ?thesis
  proof (cases "back_to_monday b")
    case (Inl e')
    with assms short show ?thesis by (simp add: gen_calendar_def Let_def)
  next
    case (Inr s)
    obtain c r where g: "draw_grid today [Fill_page, Show_text (Title title)] s years fl = (c, r)"
      by (cases "draw_grid today [Fill_page, Show_text (Title title)] s years fl")
    with assms short Inr show ?thesis
      by (cases r) (auto simp: gen_calendar_def Let_def)
  qed
qed

text \<open>
  \<open>main\<close> seen through \<open>gen_calendar\<close>: the name of the document plays no part.
\<close>

lemma gen_calendar_filename:
  "gen_calendar today b title filename years fl w = gen_calendar today b title None years fl w"
  by (simp add: gen_calendar_def)

lemma main_unfold:
  assumes "arg_locale a \<in> set locales" "parse_date (arg_date a) = Inr b"
    and "gen_calendar today b (arg_title a) None (max 1 (min 88 (arg_years a))) (arg_fill_lived a) w
         = (ctx, w', r)"
  shows "main today locales a w =
     (case r of Some e \<Rightarrow> (w'\<lparr>stdout := stdout w' @ [Message e]\<rparr>, None) | None \<Rightarrow> (w', None))"
proof -
  have "gen_calendar today b (arg_title a)
          (if arg_stdout a then None else Some (fst (splitext (arg_filename a)) @ ''.pdf''))
          (max 1 (min 88 (arg_years a))) (arg_fill_lived a) w = (ctx, w', r)"
    using assms(3) gen_calendar_filename by metis
  with assms(1,2) show ?thesis by (cases r) (simp_all add: main_def Let_def)
qed

lemma main_document_counts:
  assumes "stdout (fst (main today locales a w)) = stdout w @ [Document ctx]"
  shows "rows ctx = nat (max 1 (min 88 (arg_years a)))
       \<and> squares ctx = 3 + 52 * nat (max 1 (min 88 (arg_years a)))"
proof (cases "arg_locale a \<in> set locales")
  case False
  with assms show ?thesis by (simp add: main_def)
next
  case loc: True
  show ?thesis
  proof (cases "parse_date (arg_date a)")
    case (Inl e)
    with assms loc show ?thesis by (simp add: main_def)
  next
    case (Inr b)
    obtain c w' r where g: "gen_calendar today b (arg_title a) None
        (max 1 (min 88 (arg_years a))) (arg_fill_lived a) w = (c, w', r)"
      using prod_cases3 by blast
    show ?thesis
    proof (cases r)
      case (Some e)
      with g have "w' = w" using gen_calendar_error_world by blast
      with assms main_unfold [OF loc Inr g] Some show ?thesis by simp
    next
      case None
      with g gen_calendar_counts [of today b "arg_title a" None _ "arg_fill_lived a" w c w']
      have "w' = w\<lparr>stdout := stdout w @ [Document c]\<rparr>"
        "rows c = nat (max 1 (min 88 (arg_years a)))"
        "squares c = 3 + 52 * nat (max 1 (min 88 (arg_years a)))" by simp_all
      with assms main_unfold [OF loc Inr g] None show ?thesis by simp
    qed
  qed
qed

lemma main_succeeds:
  assumes "arg_locale a \<in> set locales" "valid_date today"
    and "parse_date (arg_date a) = Inr b" "year b \<le> 9900"
    and "back_to_monday b = Inr s" "\<not> (month s = 2 \<and> day s = 29)"
    and "length (arg_title a) \<le> 30"
  shows "\<exists>ctx. main today locales a w = (w\<lparr>stdout := stdout w @ [Document ctx]\<rparr>, None)
           \<and> rows ctx = nat (max 1 (min 88 (arg_years a)))
           \<and> squares ctx = 3 + 52 * nat (max 1 (min 88 (arg_years a)))"
proof -
  have y: "0 \<le> max 1 (min 88 (arg_years a))" "max 1 (min 88 (arg_years a)) \<le> 88"
    by simp_all
  from gen_calendar_succeeds [OF assms(2) parse_date_valid [OF assms(3)] assms(4,5,6,7) y,
      of None "arg_fill_lived a" w]
  obtain ctx where g: "gen_calendar today b (arg_title a) None (max 1 (min 88 (arg_years a)))
      (arg_fill_lived a) w = (ctx, w\<lparr>stdout := stdout w @ [Document ctx]\<rparr>, None)" by auto
  from main_unfold [OF assms(1,3) g]
  have m: "main today locales a w = (w\<lparr>stdout := stdout w @ [Document ctx]\<rparr>, None)" by simp
  then have "stdout (fst (main today locales a w)) = stdout w @ [Document ctx]" by simp
  from main_document_counts [OF this] m show ?thesis by blast
qed

text \<open>
  C5. \<open>main\<close> hands \<open>max(1, min(88, args.years))\<close> to \<open>gen_calendar\<close>, and a document
  that it writes has exactly that many rows, each a label and 52 squares, whatever
  integer was requested. A run with an installed locale, a start date in or before
  the year 9900 that is not backed up to 29 February and a title of at most 30
  characters writes its document, and no exception leaves \<open>main\<close>.
\<close>

theorem rows_are_clamped_years:
  "(\<forall>ctx. stdout (fst (main today locales a w)) = stdout w @ [Document ctx] \<longrightarrow>
       rows ctx = nat (max 1 (min 88 (arg_years a)))
       \<and> squares ctx = 3 + 52 * nat (max 1 (min 88 (arg_years a))))
   \<and> (arg_locale a \<in> set locales \<and> valid_date today
        \<and> parse_date (arg_date a) = Inr b \<and> year b \<le> 9900
        \<and> back_to_monday b = Inr s \<and> \<not> (month s = 2 \<and> day s = 29)
        \<and> length (arg_title a) \<le> 30 \<longrightarrow>
       (\<exists>ctx. main today locales a w = (w\<lparr>stdout := stdout w @ [Document ctx]\<rparr>, None)
          \<and> rows ctx = nat (max 1 (min 88 (arg_years a)))
          \<and> squares ctx = 3 + 52 * nat (max 1 (min 88 (arg_years a)))))"
  using main_document_counts [of today locales a w] main_succeeds [of a locales today b s w]
  by blast

theorem rows_are_clamped_years_witness:
  "(\<exists>ctx. main \<lparr>year = 2024, month = 1, day = 1\<rparr> [''it_IT'']
           \<lparr>arg_date = ''15/03/1990'', arg_filename = ''life_calendar.pdf'', arg_stdout = False,
            arg_title = ''CALENDARIO DELLA VITA'', arg_years = 200, arg_locale = ''it_IT'',
            arg_fill_lived = False\<rparr>
           \<lparr>stdout = [], files = Map.empty\<rparr>
         = (\<lparr>stdout = [Document ctx], files = Map.empty\<rparr>, None)
       \<and> rows ctx = 88 \<and> squares ctx = 3 + 52 * 88)
   \<and> (\<exists>ctx. main \<lparr>year = 2024, month = 1, day = 1\<rparr> [''it_IT'']
           \<lparr>arg_date = ''15/03/1990'', arg_filename = ''life_calendar.pdf'', arg_stdout = False,
            arg_title = ''CALENDARIO DELLA VITA'', arg_years = 0, arg_locale = ''it_IT'',
            arg_fill_lived = False\<rparr>
           \<lparr>stdout = [], files = Map.empty\<rparr>
         = (\<lparr>stdout = [Document ctx], files = Map.empty\<rparr>, None)
       \<and> rows ctx = 1 \<and> squares ctx = 3 + 52 * 1)"
proof -
  have t: "valid_date \<lparr>year = 2024, month = 1, day = 1\<rparr>"
    by (simp add: valid_date_def MINYEAR_def MAXYEAR_def days_in_month_def DAYS_IN_MONTH_def)
  have p: "parse_date ''15/03/1990'' = Inr \<lparr>year = 1990, month = 3, day = 15\<rparr>" by code_simp
  have b: "back_to_monday \<lparr>year = 1990, month = 3, day = 15\<rparr>
      = Inr \<lparr>year = 1990, month = 3, day = 12\<rparr>" by code_simp
  show ?thesis
    using t p b
      rows_are_clamped_years [where today = "\<lparr>year = 2024, month = 1, day = 1\<rparr>"
        and locales = "[''it_IT'']" and w = "\<lparr>stdout = [], files = Map.empty\<rparr>"
        and b = "\<lparr>year = 1990, month = 3, day = 15\<rparr>"
        and s = "\<lparr>year = 1990, month = 3, day = 12\<rparr>"
        and a = "\<lparr>arg_date = ''15/03/1990'', arg_filename = ''life_calendar.pdf'',
            arg_stdout = False, arg_title = ''CALENDARIO DELLA VITA'', arg_years = 200,
            arg_locale = ''it_IT'', arg_fill_lived = False\<rparr>"]
      rows_are_clamped_years [where today = "\<lparr>year = 2024, month = 1, day = 1\<rparr>"
        and locales = "[''it_IT'']" and w = "\<lparr>stdout = [], files = Map.empty\<rparr>"
        and b = "\<lparr>year = 1990, month = 3, day = 15\<rparr>"
        and s = "\<lparr>year = 1990, month = 3, day = 12\<rparr>"
        and a = "\<lparr>arg_date = ''15/03/1990'', arg_filename = ''life_calendar.pdf'',
            arg_stdout = False, arg_title = ''CALENDARIO DELLA VITA'', arg_years = 0,
            arg_locale = ''it_IT'', arg_fill_lived = False\<rparr>"]
    by simp
qed

lemma main_files: "files (fst (main today locales a w)) = files w"
proof (cases "arg_locale a \<in> set locales")
  case False
  then show ?thesis by (simp add: main_def)
next
  case loc: True
  show ?thesis
  proof (cases "parse_date (arg_date a)")
    case (Inl e)
    with loc show ?thesis by (simp add: main_def)
  next
    case (Inr b)
    obtain c w' r where g: "gen_calendar today b (arg_title a) None
        (max 1 (min 88 (arg_years a))) (arg_fill_lived a) w = (c, w', r)"
      using prod_cases3 by blast
    show ?thesis
    proof (cases r)
      case (Some e)
      with g have "w' = w" using gen_calendar_error_world by blast
      with main_unfold [OF loc Inr g] Some show ?thesis by simp
    next
      case None
      with g gen_calendar_counts [of today b "arg_title a" None _ "arg_fill_lived a" w c w']
      have "w' = w\<lparr>stdout := stdout w @ [Document c]\<rparr>" by simp
      with main_unfold [OF loc Inr g] None show ?thesis by simp
    qed
  qed
qed

lemma main_ignores_destination:
  "main today locales (a\<lparr>arg_stdout := flag, arg_filename := name\<rparr>) w = main today locales a w"
proof (cases "arg_locale a \<in> set locales")
  case False
  then show ?thesis by (simp add: main_def)
next
  case loc: True
  show ?thesis
  proof (cases "parse_date (arg_date a)")
    case (Inl e)
    with loc show ?thesis by (simp add: main_def)
  next
    case (Inr b)
    obtain c w' r where g: "gen_calendar today b (arg_title a) None
        (max 1 (min 88 (arg_years a))) (arg_fill_lived a) w = (c, w', r)"
      using prod_cases3 by blast
    let ?a' = "a\<lparr>arg_stdout := flag, arg_filename := name\<rparr>"
    have "main today locales ?a' w =
       (case r of Some e \<Rightarrow> (w'\<lparr>stdout := stdout w' @ [Message e]\<rparr>, None) | None \<Rightarrow> (w', None))"
      by (rule main_unfold [where b = b and ctx = c]) (use loc Inr g in simp_all)
    with main_unfold [OF loc Inr g] show ?thesis by simp
  qed
qed

text \<open>
  C2, as the code has it. No function of the program writes a file: \<open>gen_calendar\<close>
  does not read its parameter \<open>filename\<close> and always writes the document to standard
  output. The flag \<open>--stdout\<close> and the name \<open>--filename\<close> decide \<open>doc_name\<close> and nothing
  else: a run leaves the files as they were, it is the same run whatever the flag and
  the name are, and a run without \<open>--stdout\<close> that completes has put its document on
  standard output.
\<close>

theorem document_goes_to_stdout_whatever_the_flag:
  "files (fst (main today locales a w)) = files w
   \<and> main today locales (a\<lparr>arg_stdout := flag, arg_filename := name\<rparr>) w = main today locales a w
   \<and> (\<not> arg_stdout a \<and> arg_locale a \<in> set locales \<and> valid_date today
        \<and> parse_date (arg_date a) = Inr b \<and> year b \<le> 9900
        \<and> back_to_monday b = Inr s \<and> \<not> (month s = 2 \<and> day s = 29)
        \<and> length (arg_title a) \<le> 30 \<longrightarrow>
       (\<exists>ctx. main today locales a w = (w\<lparr>stdout := stdout w @ [Document ctx]\<rparr>, None)))"
  using main_files [of today locales a w]
    main_ignores_destination [where today = today and locales = locales and a = a
      and flag = flag and name = name and w = w]
    main_succeeds [of a locales today b s w]
  by blast

text \<open>
  The run \<open>generate_life_calendar.py 15/03/1990\<close>, without \<open>--stdout\<close>: the name of the
  document would be \<open>life_calendar.pdf\<close>, no file of that name appears, and the document
  is on standard output.
\<close>

theorem document_goes_to_stdout_whatever_the_flag_witness:
  "fst (splitext ''life_calendar.pdf'') @ ''.pdf'' = ''life_calendar.pdf''
   \<and> (\<exists>ctx. main \<lparr>year = 2024, month = 1, day = 1\<rparr> [''it_IT'']
           \<lparr>arg_date = ''15/03/1990'', arg_filename = ''life_calendar.pdf'', arg_stdout = False,
            arg_title = ''CALENDARIO DELLA VITA'', arg_years = 80, arg_locale = ''it_IT'',
            arg_fill_lived = False\<rparr>
           \<lparr>stdout = [], files = Map.empty\<rparr>
         = (\<lparr>stdout = [Document ctx], files = Map.empty\<rparr>, None))
   \<and> files (fst (main \<lparr>year = 2024, month = 1, day = 1\<rparr> [''it_IT'']
           \<lparr>arg_date = ''15/03/1990'', arg_filename = ''life_calendar.pdf'', arg_stdout = False,
            arg_title = ''CALENDARIO DELLA VITA'', arg_years = 80, arg_locale = ''it_IT'',
            arg_fill_lived = False\<rparr>
           \<lparr>stdout = [], files = Map.empty\<rparr>)) ''life_calendar.pdf'' = None"
proof -
  have t: "valid_date \<lparr>year = 2024, month = 1, day = 1\<rparr>"
    by (simp add: valid_date_def MINYEAR_def MAXYEAR_def days_in_month_def DAYS_IN_MONTH_def)
  have p: "parse_date ''15/03/1990'' = Inr \<lparr>year = 1990, month = 3, day = 15\<rparr>" by code_simp
  have b: "back_to_monday \<lparr>year = 1990, month = 3, day = 15\<rparr>
      = Inr \<lparr>year = 1990, month = 3, day = 12\<rparr>" by code_simp
  have n: "fst (splitext ''life_calendar.pdf'') @ ''.pdf'' = ''life_calendar.pdf''" by code_simp
  show ?thesis
    using t p b n
      document_goes_to_stdout_whatever_the_flag [where today = "\<lparr>year = 2024, month = 1, day = 1\<rparr>"
        and locales = "[''it_IT'']" and w = "\<lparr>stdout = [], files = Map.empty\<rparr>"
        and b = "\<lparr>year = 1990, month = 3, day = 15\<rparr>"
        and s = "\<lparr>year = 1990, month = 3, day = 12\<rparr>"
        and a = "\<lparr>arg_date = ''15/03/1990'', arg_filename = ''life_calendar.pdf'',
            arg_stdout = False, arg_title = ''CALENDARIO DELLA VITA'', arg_years = 80,
            arg_locale = ''it_IT'', arg_fill_lived = False\<rparr>"]
    by simp
qed

section \<open>The week of the birthday\<close>

text \<open>
  C1, as the code has it. \<open>gen_calendar\<close> hands the Monday it backed up to, not the
  birth date, to \<open>draw_grid\<close>, which keeps it as \<open>start_date\<close>; the classifier is the
  reference classification of that Monday (\<open>cell_fill_refines\<close>). For the birth date
  18 March 1990, a Sunday, the start date is 12 March. In the second row the week from
  11 March 1991 holds 12 March and not the birthday and is drawn as the week of the
  birthday; the week from 18 March 1991 begins with the birthday and is drawn white.
  The reference classification of the birth date says DEFAULT for the first of the two
  and BIRTHDAY for the second.
\<close>

theorem birthday_week_follows_the_anchor:
  "parse_date ''18/03/1990'' = Inr \<lparr>year = 1990, month = 3, day = 18\<rparr>
   \<and> back_to_monday \<lparr>year = 1990, month = 3, day = 18\<rparr> = Inr \<lparr>year = 1990, month = 3, day = 12\<rparr>
   \<and> take 3 (drop 113 (fst (gen_calendar \<lparr>year = 2024, month = 1, day = 1\<rparr>
          \<lparr>year = 1990, month = 3, day = 18\<rparr> ''CALENDARIO DELLA VITA'' None 2 False
          \<lparr>stdout = [], files = Map.empty\<rparr>)))
       = [Show_text (DateLabel \<lparr>year = 1991, month = 3, day = 11\<rparr>),
          Draw_square BIRTHDAY_COLOUR, Draw_square WHITE]
   \<and> add_days \<lparr>year = 1991, month = 3, day = 11\<rparr> 7 = Inr \<lparr>year = 1991, month = 3, day = 18\<rparr>
   \<and> spec_palette (spec_classify \<lparr>year = 2024, month = 1, day = 1\<rparr> False
        \<lparr>year = 1990, month = 3, day = 18\<rparr> \<lparr>year = 1991, month = 3, day = 11\<rparr>) = WHITE
   \<and> spec_palette (spec_classify \<lparr>year = 2024, month = 1, day = 1\<rparr> False
        \<lparr>year = 1990, month = 3, day = 18\<rparr> \<lparr>year = 1991, month = 3, day = 18\<rparr>) = BIRTHDAY_COLOUR
   \<and> WHITE \<noteq> BIRTHDAY_COLOUR"
  by code_simp

section \<open>The round trip of a date\<close>

text \<open>
  Modelled from the spec: the repository has no function that writes a date in the
  patterns it parses. The round trip of the specification formats a date "through the
  accepted patterns", dd/mm/yyyy and dd-mm-yyyy: the day in two digits, the month in
  two digits and the year in four digits, padded with zeros, with the separator between
  them. \<open>digits k n\<close> are the last \<open>k\<close> decimal digits of \<open>n\<close>.
\<close>

definition digit_char :: "int \<Rightarrow> char" where
  "digit_char n = ''0123456789'' ! nat n"

fun digits :: "nat \<Rightarrow> int \<Rightarrow> string" where
  "digits 0 n = []"
| "digits (Suc k) n = digits k (n div 10) @ [digit_char (n mod 10)]"

definition format_date :: "char \<Rightarrow> date \<Rightarrow> string" where
  "format_date sep dt =
     digits 2 (day dt) @ [sep] @ digits 2 (month dt) @ [sep] @ digits 4 (year dt)"

lemma digit_cases:
  fixes n :: int
  shows "n mod 10 = 0 \<or> n mod 10 = 1 \<or> n mod 10 = 2 \<or> n mod 10 = 3 \<or> n mod 10 = 4
       \<or> n mod 10 = 5 \<or> n mod 10 = 6 \<or> n mod 10 = 7 \<or> n mod 10 = 8 \<or> n mod 10 = 9"
proof -
  have "0 \<le> n mod 10" "n mod 10 < 10" by simp_all
  then show ?thesis by arith
qed




lemma digit_char_props:
  "is_digit (digit_char (n mod 10))"
  "\<not> is_space (digit_char (n mod 10))"
  "digit_val (digit_char (n mod 10)) = n mod 10"
  "digit_char (n mod 10) \<noteq> CHR ''/''"
  "digit_char (n mod 10) \<noteq> CHR ''-''"
proof -
  have "is_digit (digit_char (n mod 10)) \<and> \<not> is_space (digit_char (n mod 10))
      \<and> digit_val (digit_char (n mod 10)) = n mod 10
      \<and> digit_char (n mod 10) \<noteq> CHR ''/'' \<and> digit_char (n mod 10) \<noteq> CHR ''-''"
    using digit_cases [of n]
    by (elim disjE) (simp_all add: digit_char_def is_digit_def is_space_def digit_val_def)
  then show "is_digit (digit_char (n mod 10))"
    "\<not> is_space (digit_char (n mod 10))"
    "digit_val (digit_char (n mod 10)) = n mod 10"
    "digit_char (n mod 10) \<noteq> CHR ''/''"
    "digit_char (n mod 10) \<noteq> CHR ''-''" by simp_all
qed


lemma digits_2: "digits 2 n = [digit_char (n div 10 mod 10), digit_char (n mod 10)]"
  by (simp add: numeral_2_eq_2)

lemma digits_4:
  "digits 4 n = [digit_char (n div 10 div 10 div 10 mod 10), digit_char (n div 10 div 10 mod 10),
                 digit_char (n div 10 mod 10), digit_char (n mod 10)]"
  by (simp add: numeral_eq_Suc)

lemma py_int_2:
  "py_int [digit_char (x mod 10), digit_char (y mod 10)] = 10 * (x mod 10) + y mod 10"
  by (simp add: py_int_def strip_def digit_char_props)

lemma py_int_4:
  "py_int [digit_char (x mod 10), digit_char (y mod 10), digit_char (z mod 10), digit_char (u mod 10)]
     = 10 * (10 * (10 * (x mod 10) + y mod 10) + z mod 10) + u mod 10"
  by (simp add: py_int_def strip_def digit_char_props)


lemma py_int_digits_2:
  assumes "0 \<le> n" "n < 100"
  shows "py_int (digits 2 n) = n"
proof -
  have "n div 10 mod 10 = n div 10" using assms by simp
  then have "10 * (n div 10 mod 10) + n mod 10 = n" by simp
  then show ?thesis unfolding digits_2 py_int_2 .
qed

lemma py_int_digits_4:
  assumes "0 \<le> n" "n < 10000"
  shows "py_int (digits 4 n) = n"
proof -
  define a where "a = n div 10"
  define b where "b = a div 10"
  define c where "c = b div 10"
  define r0 where "r0 = n mod 10"
  define r1 where "r1 = a mod 10"
  define r2 where "r2 = b mod 10"
  have "c < 10" using assms unfolding c_def b_def a_def by simp
  moreover have "0 \<le> c" using assms unfolding c_def b_def a_def by simp
  ultimately have c: "c mod 10 = c" by simp
  have "n = 10 * a + r0" "a = 10 * b + r1" "b = 10 * c + r2"
    unfolding a_def b_def c_def r0_def r1_def r2_def by simp_all
  then have "10 * (10 * (10 * c + r2) + r1) + r0 = n" by simp
  then have "10 * (10 * (10 * (c mod 10) + b mod 10) + a mod 10) + n mod 10 = n"
    unfolding c r0_def r1_def r2_def .
  then show ?thesis unfolding digits_4 py_int_4 a_def b_def c_def .
qed

lemma day_cases:
  fixes d :: int
  assumes "1 \<le> d" "d \<le> 31"
  shows "d = 1 \<or> d = 2 \<or> d = 3 \<or> d = 4 \<or> d = 5 \<or> d = 6 \<or> d = 7 \<or> d = 8 \<or> d = 9 \<or> d = 10
       \<or> d = 11 \<or> d = 12 \<or> d = 13 \<or> d = 14 \<or> d = 15 \<or> d = 16 \<or> d = 17 \<or> d = 18 \<or> d = 19
       \<or> d = 20 \<or> d = 21 \<or> d = 22 \<or> d = 23 \<or> d = 24 \<or> d = 25 \<or> d = 26 \<or> d = 27 \<or> d = 28
       \<or> d = 29 \<or> d = 30 \<or> d = 31"
  using assms by arith

lemma re_d_digits:
  assumes "1 \<le> d" "d \<le> 31"
  shows "re_d (digits 2 d @ r) =
           (digits 2 d, r) #
           (if 10 \<le> d then [([digit_char (d div 10 mod 10)], digit_char (d mod 10) # r)] else [])"
  using day_cases [OF assms]
  by (elim disjE)
     (simp_all add: digits_2 digit_char_def re_d_def is_digit_def is_nonzero_digit_def)

lemma re_m_digits:
  assumes "1 \<le> m" "m \<le> 12"
  shows "re_m (digits 2 m @ r) =
           (digits 2 m, r) #
           (if 10 \<le> m then [([digit_char (m div 10 mod 10)], digit_char (m mod 10) # r)] else [])"
  using month_cases [OF assms]
  by (elim disjE)
     (simp_all add: digits_2 digit_char_def re_m_def is_digit_def is_nonzero_digit_def)

lemma re_Y_digits: "re_Y (digits 4 y @ r) = [(digits 4 y, r)]"
  by (simp add: re_Y_def digits_4 digit_char_props)

lemma lit_match: "re_match (Lit c # f) (x # r) = (if x = c then re_match f r else [])"
  by simp

lemma pattern_slash: "pattern ''%d/%m/%Y''
    = [Dir (CHR ''d''), Lit (CHR ''/''), Dir (CHR ''m''), Lit (CHR ''/''), Dir (CHR ''Y'')]"
  by simp

lemma pattern_dash: "pattern ''%d-%m-%Y''
    = [Dir (CHR ''d''), Lit (CHR ''-''), Dir (CHR ''m''), Lit (CHR ''-''), Dir (CHR ''Y'')]"
  by simp

text \<open>
  A group whose first alternative is followed by the rest of the pattern, and whose
  other alternatives leave a text that the rest of the pattern does not match.
\<close>

lemma re_match_dir_step:
  assumes "re_directive k s = (t, r) # alts"
    and "\<And>t' r'. (t', r') \<in> set alts \<Longrightarrow> re_match f r' = []"
  shows "re_match (Dir k # f) s = map (\<lambda>(g, r'). ((k, t) # g, r')) (re_match f r)"
proof -
  have "concat (map (\<lambda>(t, r). map (\<lambda>(g, r'). ((k, t) # g, r')) (re_match f r)) alts) = []"
    using assms(2) by (induction alts) auto
  then show ?thesis by (simp add: assms(1))
qed

lemma re_match_formatted:
  assumes "1 \<le> d" "d \<le> 31" "1 \<le> m" "m \<le> 12"
    and "c = CHR ''/'' \<or> c = CHR ''-''"
  shows "re_match [Dir (CHR ''d''), Lit c, Dir (CHR ''m''), Lit c, Dir (CHR ''Y'')]
           (digits 2 d @ [x] @ digits 2 m @ [x] @ digits 4 y)
         = (if x = c then [([(CHR ''d'', digits 2 d), (CHR ''m'', digits 2 m),
                            (CHR ''Y'', digits 4 y)], [])]
            else [])"
proof -
  let ?fy = "[Dir (CHR ''Y'')]"
  let ?fm = "Dir (CHR ''m'') # Lit c # ?fy"
  have nd: "digit_char (k mod 10) \<noteq> c" for k
    using assms(5) digit_char_props(4,5) [of k] by auto
  have y: "re_match ?fy (digits 4 y) = [([(CHR ''Y'', digits 4 y)], [])]"
    using re_Y_digits [of y "[]"] by (simp add: re_directive_def)
  have ly: "re_match (Lit c # ?fy) (x # digits 4 y)
      = (if x = c then [([(CHR ''Y'', digits 4 y)], [])] else [])"
    unfolding lit_match y ..
  have m: "re_match ?fm (digits 2 m @ x # digits 4 y)
      = map (\<lambda>(g, r'). ((CHR ''m'', digits 2 m) # g, r'))
          (re_match (Lit c # ?fy) (x # digits 4 y))"
  proof (rule re_match_dir_step)
    show "re_directive (CHR ''m'') (digits 2 m @ x # digits 4 y) =
        (digits 2 m, x # digits 4 y) #
        (if 10 \<le> m then [([digit_char (m div 10 mod 10)], digit_char (m mod 10) # x # digits 4 y)]
         else [])"
      using re_m_digits [OF assms(3,4)] by (simp add: re_directive_def)
  next
    fix t' r'
    assume "(t', r') \<in> set (if 10 \<le> m
        then [([digit_char (m div 10 mod 10)], digit_char (m mod 10) # x # digits 4 y)] else [])"
    then have "r' = digit_char (m mod 10) # x # digits 4 y" by (auto split: if_splits)
    then show "re_match (Lit c # ?fy) r' = []" unfolding lit_match using nd by simp
  qed
  have m': "re_match ?fm (digits 2 m @ x # digits 4 y)
      = (if x = c then [([(CHR ''m'', digits 2 m), (CHR ''Y'', digits 4 y)], [])] else [])"
    unfolding m ly by simp
  have lm: "re_match (Lit c # ?fm) (x # digits 2 m @ x # digits 4 y)
      = (if x = c then [([(CHR ''m'', digits 2 m), (CHR ''Y'', digits 4 y)], [])] else [])"
    unfolding lit_match [of c ?fm] m' by simp
  have d: "re_match (Dir (CHR ''d'') # Lit c # ?fm) (digits 2 d @ x # digits 2 m @ x # digits 4 y)
      = map (\<lambda>(g, r'). ((CHR ''d'', digits 2 d) # g, r'))
          (re_match (Lit c # ?fm) (x # digits 2 m @ x # digits 4 y))"
  proof (rule re_match_dir_step)
    show "re_directive (CHR ''d'') (digits 2 d @ x # digits 2 m @ x # digits 4 y) =
        (digits 2 d, x # digits 2 m @ x # digits 4 y) #
        (if 10 \<le> d then [([digit_char (d div 10 mod 10)],
                            digit_char (d mod 10) # x # digits 2 m @ x # digits 4 y)]
         else [])"
      using re_d_digits [OF assms(1,2)] by (simp add: re_directive_def)
  next
    fix t' r'
    assume "(t', r') \<in> set (if 10 \<le> d
        then [([digit_char (d div 10 mod 10)],
               digit_char (d mod 10) # x # digits 2 m @ x # digits 4 y)] else [])"
    then have "r' = digit_char (d mod 10) # x # digits 2 m @ x # digits 4 y"
      by (auto split: if_splits)
    then show "re_match (Lit c # ?fm) r' = []" unfolding lit_match using nd by simp
  qed
  have str: "digits 2 d @ [x] @ digits 2 m @ [x] @ digits 4 y
      = digits 2 d @ x # digits 2 m @ x # digits 4 y" by simp
  have "re_match (Dir (CHR ''d'') # Lit c # ?fm) (digits 2 d @ x # digits 2 m @ x # digits 4 y)
      = (if x = c then [([(CHR ''d'', digits 2 d), (CHR ''m'', digits 2 m),
                          (CHR ''Y'', digits 4 y)], [])] else [])"
    unfolding d lm by simp
  then show ?thesis unfolding str .
qed

lemma strptime_formatted:
  assumes "valid_date dt" and "c = CHR ''/'' \<or> c = CHR ''-''"
    and "pattern fmt = [Dir (CHR ''d''), Lit c, Dir (CHR ''m''), Lit c, Dir (CHR ''Y'')]"
  shows "strptime (format_date x dt) fmt = (if x = c then Inr dt else Inl NoFormatMatch)"
proof -
  from assms(1) have m: "1 \<le> month dt" "month dt \<le> 12"
    and d: "1 \<le> day dt" "day dt \<le> days_in_month (year dt) (month dt)"
    and y: "1 \<le> year dt" "year dt \<le> 9999"
    by (simp_all add: valid_date_def MINYEAR_def MAXYEAR_def)
  have d31: "day dt \<le> 31" using d(2) days_in_month_pos [OF m, of "year dt"] by simp
  have rm: "re_match (pattern fmt) (format_date x dt)
      = (if x = c then [([(CHR ''d'', digits 2 (day dt)), (CHR ''m'', digits 2 (month dt)),
                          (CHR ''Y'', digits 4 (year dt))], [])]
         else [])"
    unfolding assms(3) format_date_def
    by (rule re_match_formatted [OF d(1) d31 m assms(2)])
  show ?thesis
  proof (cases "x = c")
    case False
    then show ?thesis by (simp add: strptime_def rm)
  next
    case True
    have py: "py_int (digits 4 (year dt)) = year dt" "py_int (digits 2 (month dt)) = month dt"
      "py_int (digits 2 (day dt)) = day dt"
      using y m d d31 by (simp_all add: py_int_digits_4 py_int_digits_2)
    have "new_date (year dt) (month dt) (day dt) = Inr dt"
      using y m d by (simp add: new_date_def MINYEAR_def MAXYEAR_def)
    moreover have "re_match (pattern fmt) (format_date x dt)
        = [([(CHR ''d'', digits 2 (day dt)), (CHR ''m'', digits 2 (month dt)),
             (CHR ''Y'', digits 4 (year dt))], [])]"
      using rm True by simp
    ultimately show ?thesis
      unfolding strptime_def by (simp add: True group_int_def py)
  qed
qed

text \<open>
  C9. A date that the constructor accepts, written as dd/mm/yyyy or as dd-mm-yyyy, is
  parsed by \<open>parse_date\<close> to the same date.
\<close>

theorem parse_format_round_trip:
  assumes "valid_date dt"
  shows "parse_date (format_date (CHR ''/'') dt) = Inr dt
       \<and> parse_date (format_date (CHR ''-'') dt) = Inr dt"
proof -
  have s: "strptime (format_date x dt) ''%d/%m/%Y''
      = (if x = CHR ''/'' then Inr dt else Inl NoFormatMatch)" for x
    by (rule strptime_formatted [OF assms _ pattern_slash]) simp
  have h: "strptime (format_date x dt) ''%d-%m-%Y''
      = (if x = CHR ''-'' then Inr dt else Inl NoFormatMatch)" for x
    by (rule strptime_formatted [OF assms _ pattern_dash]) simp
  show ?thesis by (simp add: parse_date_def Let_def s h)
qed

theorem parse_format_round_trip_witness:
  "valid_date \<lparr>year = 987, month = 3, day = 5\<rparr>
   \<and> format_date (CHR ''/'') \<lparr>year = 987, month = 3, day = 5\<rparr> = ''05/03/0987''
   \<and> format_date (CHR ''-'') \<lparr>year = 987, month = 3, day = 5\<rparr> = ''05-03-0987''
   \<and> parse_date ''05/03/0987'' = Inr \<lparr>year = 987, month = 3, day = 5\<rparr>
   \<and> parse_date ''05-03-0987'' = Inr \<lparr>year = 987, month = 3, day = 5\<rparr>"
proof -
  have v: "valid_date \<lparr>year = 987, month = 3, day = 5\<rparr>"
    by (simp add: valid_date_def MINYEAR_def MAXYEAR_def days_in_month_def DAYS_IN_MONTH_def)
  have f: "format_date (CHR ''/'') \<lparr>year = 987, month = 3, day = 5\<rparr> = ''05/03/0987''"
    "format_date (CHR ''-'') \<lparr>year = 987, month = 3, day = 5\<rparr> = ''05-03-0987''"
    by (simp_all add: format_date_def digits_2 digits_4 digit_char_def)
  from parse_format_round_trip [OF v] v f show ?thesis by simp
qed

end
